theory Spec2Isabelle
  imports Main "HOL-Library.Sublist"
begin

section \<open>Utility module\<close>

subsection \<open>Strings\<close>

text \<open>
  A JavaScript string is modelled as a \<^typ>\<open>string\<close>, one \<^typ>\<open>char\<close> per code unit.
  The model is accurate for the ASCII range: \<open>toLowerCase\<close> sends \<open>A\<close>..\<open>Z\<close> to
  \<open>a\<close>..\<open>z\<close> and leaves every other code unit alone.
\<close>

definition lowerChar :: "char \<Rightarrow> char" where
  "lowerChar c =
     (let n = (of_char c :: nat) in if 65 \<le> n \<and> n \<le> 90 then char_of (n + 32) else c)"

definition toLowerCase :: "string \<Rightarrow> string" where
  "toLowerCase s = map lowerChar s"

subsection \<open>levenshteinDistance\<close>

text \<open>
  The source fills a matrix of \<open>b.length + 1\<close> rows and \<open>a.length + 1\<close> columns.
  The cells start as \<open>null\<close>, which JavaScript arithmetic reads as \<open>0\<close>; the model
  starts them at \<open>0\<close>. \<open>setCell m j i v\<close> is the assignment \<open>matrix[j][i] = v\<close>.
\<close>

definition setCell :: "nat list list \<Rightarrow> nat \<Rightarrow> nat \<Rightarrow> nat \<Rightarrow> nat list list" where
  "setCell m j i v = m[j := (m ! j)[i := v]]"

definition levCell :: "'a list \<Rightarrow> 'a list \<Rightarrow> nat list list \<Rightarrow> nat \<Rightarrow> nat \<Rightarrow> nat" where
  "levCell a b m j i =
     (let indicator = (if a ! (i - 1) = b ! (j - 1) then 0 else 1)
      in min (min (m ! j ! (i - 1) + 1) (m ! (j - 1) ! i + 1))
             (m ! (j - 1) ! (i - 1) + indicator))"

definition levRow :: "'a list \<Rightarrow> 'a list \<Rightarrow> nat \<Rightarrow> nat list list \<Rightarrow> nat list list" where
  "levRow a b j m = fold (\<lambda>i m. setCell m j i (levCell a b m j i)) [1..<length a + 1] m"

definition levenshteinDistance :: "'a list \<Rightarrow> 'a list \<Rightarrow> nat" where
  "levenshteinDistance a b =
     (let matrix0 = replicate (length b + 1) (replicate (length a + 1) 0);
          matrix1 = fold (\<lambda>i m. setCell m 0 i i) [0..<length a + 1] matrix0;
          matrix2 = fold (\<lambda>j m. setCell m j 0 j) [0..<length b + 1] matrix1;
          matrix3 = fold (levRow a b) [1..<length b + 1] matrix2
      in matrix3 ! length b ! length a)"

text \<open>
  The recurrence the matrix tabulates, on lists read from their last element
  (the matrix cell \<open>(j, i)\<close> is about the first \<open>i\<close> units of \<open>a\<close> and the first \<open>j\<close> of \<open>b\<close>).
\<close>

fun lev :: "'a list \<Rightarrow> 'a list \<Rightarrow> nat" where
  "lev [] ys = length ys"
| "lev xs [] = length xs"
| "lev (x # xs) (y # ys) =
     min (min (lev xs (y # ys) + 1) (lev (x # xs) ys + 1))
         (lev xs ys + (if x = y then 0 else 1))"

subsection \<open>sanitizeHTML, trim, split, join, includes\<close>

definition escapeChar :: "char \<Rightarrow> string" where
  "escapeChar c =
     (if c = CHR ''&'' then ''&amp;''
      else if c = CHR ''<'' then ''&lt;''
      else if c = CHR ''>'' then ''&gt;''
      else if c = CHR 0x22 then ''&quot;''
      else if c = CHR 0x27 then ''&#039;''
      else [c])"

definition sanitizeHTML :: "string \<Rightarrow> string" where
  "sanitizeHTML str = concat (map escapeChar str)"

text \<open>White space of the ASCII range: tab, line feed, vertical tab, form feed, carriage return, space.\<close>

definition isSpace :: "char \<Rightarrow> bool" where
  "isSpace c = (let n = (of_char c :: nat) in (9 \<le> n \<and> n \<le> 13) \<or> n = 32)"

definition trim :: "string \<Rightarrow> string" where
  "trim s = rev (dropWhile isSpace (rev (dropWhile isSpace s)))"

text \<open>\<open>s.split(sep)\<close> for a separator of one code unit: every occurrence cuts, so two
  separators in a row give an empty piece, and the empty string gives one empty piece.\<close>

fun split :: "char \<Rightarrow> string \<Rightarrow> string list" where
  "split sep [] = [[]]"
| "split sep (c # cs) =
     (if c = sep then [] # split sep cs
      else (case split sep cs of [] \<Rightarrow> [[c]] | w # ws \<Rightarrow> (c # w) # ws))"

fun join :: "string \<Rightarrow> string list \<Rightarrow> string" where
  "join sep [] = []"
| "join sep [x] = x"
| "join sep (x # y # ys) = x @ sep @ join sep (y # ys)"

text \<open>\<open>s.includes(sub)\<close>: \<open>sub\<close> occurs in \<open>s\<close> as a contiguous run.
  (\<open>includes\<close> is a keyword of Isabelle, hence the longer name.)\<close>

definition stringIncludes :: "string \<Rightarrow> string \<Rightarrow> bool" where
  "stringIncludes s sub \<longleftrightarrow> sublist sub s"

section \<open>Data module\<close>

text \<open>
  An entry of the collection, \<open>{term, aliases, tags, definition}\<close>. The source reads
  \<open>def.aliases || []\<close> and \<open>def.tags && ...\<close>: an absent list is the empty list here.
\<close>

record defn =
  def_term :: string
  def_aliases :: "string list"
  def_tags :: "string list"
  def_definition :: string

text \<open>
  The mutable variables of the modules \<open>Data\<close> (\<open>definitions\<close>, \<open>commandHistory\<close>),
  \<open>Commands\<close> (\<open>currentEditIndex\<close>, \<open>pendingImportData\<close>) and \<open>App\<close> (\<open>historyIndex\<close>),
  the value of the command input element, and the entry of \<open>localStorage\<close> under
  \<open>STORAGE_KEY\<close> (the serialised collection, kept as the collection it encodes).
\<close>

record state =
  definitions :: "defn list"
  commandHistory :: "string list"
  storage :: "defn list option"
  currentEditIndex :: "nat option"
  pendingImportData :: "defn list option"
  historyIndex :: int
  commandInput :: string

definition persistDefinitions :: "state \<Rightarrow> state" where
  "persistDefinitions st = st\<lparr>storage := Some (definitions st)\<rparr>"

text \<open>The test of lines 49 and 169--170: the term or an alias, lowercased, is the search term.\<close>

definition nameMatches :: "string \<Rightarrow> defn \<Rightarrow> bool" where
  "nameMatches searchTerm d \<longleftrightarrow>
     (let termLower = toLowerCase (def_term d);
          aliasesLower = map toLowerCase (def_aliases d)
      in termLower = searchTerm \<or> searchTerm \<in> set aliasesLower)"

text \<open>The test of line 54: the term or an alias, lowercased, contains the search term.\<close>

definition nameContains :: "string \<Rightarrow> defn \<Rightarrow> bool" where
  "nameContains searchTerm d \<longleftrightarrow>
     (let termLower = toLowerCase (def_term d);
          aliasesLower = map toLowerCase (def_aliases d)
      in stringIncludes termLower searchTerm \<or> list_ex (\<lambda>a. stringIncludes a searchTerm) aliasesLower)"

text \<open>The loop of \<open>findMatches\<close>: \<open>break\<close> at the first exact match, else collect.\<close>

fun findLoop :: "string \<Rightarrow> defn list \<Rightarrow> defn list \<Rightarrow> defn option \<times> defn list" where
  "findLoop searchTerm [] partialMatches = (None, partialMatches)"
| "findLoop searchTerm (d # rest) partialMatches =
     (if nameMatches searchTerm d then (Some d, partialMatches)
      else if nameContains searchTerm d then findLoop searchTerm rest (partialMatches @ [d])
      else findLoop searchTerm rest partialMatches)"

definition findMatches :: "defn list \<Rightarrow> string \<Rightarrow> defn option \<times> defn list" where
  "findMatches defs t =
     (let searchTerm = toLowerCase t;
          (exactMatch, partialMatches) = findLoop searchTerm defs []
      in case exactMatch of
           Some d \<Rightarrow> (Some d, [])
         | None \<Rightarrow> (None, partialMatches))"

text \<open>\<open>bestMatch\<close> is \<open>{term, distance}\<close>; the distance \<open>Infinity\<close> is \<open>None\<close>.\<close>

definition suggestStep :: "string \<Rightarrow> string \<Rightarrow> string option \<times> nat option \<Rightarrow> string option \<times> nat option" where
  "suggestStep t key bestMatch =
     (let dist = levenshteinDistance t (toLowerCase key)
      in if (case snd bestMatch of None \<Rightarrow> True | Some d \<Rightarrow> dist < d)
         then (Some key, Some dist) else bestMatch)"

definition getBestSuggestion :: "defn list \<Rightarrow> string \<Rightarrow> string option" where
  "getBestSuggestion defs t =
     (let bestMatch =
            fold (\<lambda>d best. fold (suggestStep t) (def_term d # def_aliases d) best) defs (None, None)
      in if (case snd bestMatch of None \<Rightarrow> False | Some d \<Rightarrow> d \<le> 3) then fst bestMatch else None)"

definition addDefinition :: "defn \<Rightarrow> defn list \<Rightarrow> defn list" where
  "addDefinition d defs = defs @ [d]"

definition deleteDefinition :: "nat \<Rightarrow> defn list \<Rightarrow> defn list" where
  "deleteDefinition index defs = take index defs @ drop (Suc index) defs"

definition addToHistory :: "string \<Rightarrow> string list \<Rightarrow> string list" where
  "addToHistory cmd h = (if h = [] \<or> last h \<noteq> cmd then h @ [cmd] else h)"

section \<open>Commands module\<close>

definition RESERVED_COMMANDS :: "string list" where
  "RESERVED_COMMANDS =
     [''help'', ''clear'', ''list'', ''ls'', ''add'', ''edit'', ''delete'', ''rm'', ''find'',
      ''import'', ''export'']"

text \<open>
  What a handler hands to the renderer. The markup around it is the renderer's business;
  the descriptor keeps the data the markup is built from.
\<close>

datatype result =
    UsageFind
  | UsageEdit
  | UsageDelete
  | Formatted defn
  | Ambiguous "string list"
  | FindNotFound string "string option"
  | TermNotFound string
  | ConfirmDelete string
  | Deleted string
  | Imported
  | NoFileLoaded
  | OpeningFileDialog
  | Exporting
  | Help
  | NoTermsFound "string option"
  | TermList "string option" "defn list"
  | EditorOpened "defn option"
  | TerminalCleared

text \<open>\<open>Array.prototype.findIndex\<close>, with \<open>None\<close> for \<open>-1\<close>.\<close>

fun findIndex :: "('a \<Rightarrow> bool) \<Rightarrow> 'a list \<Rightarrow> nat option" where
  "findIndex P [] = None"
| "findIndex P (x # xs) =
     (if P x then Some 0 else (case findIndex P xs of None \<Rightarrow> None | Some i \<Rightarrow> Some (Suc i)))"

definition findDefinitionAndIndex :: "defn list \<Rightarrow> string \<Rightarrow> (defn \<times> nat) option" where
  "findDefinitionAndIndex defs searchTerm =
     (let termLower = toLowerCase searchTerm
      in case findIndex (nameMatches termLower) defs of
           Some defIndex \<Rightarrow> Some (defs ! defIndex, defIndex)
         | None \<Rightarrow> None)"

text \<open>
  \<open>findDefinition\<close>. The suggestion is tested for truthiness, so the empty string
  counts as no suggestion.
\<close>

definition findDefinition :: "defn list \<Rightarrow> string \<Rightarrow> result" where
  "findDefinition defs t =
     (if t = [] then UsageFind
      else case findMatches defs t of
          (Some exactMatch, partialMatches) \<Rightarrow> Formatted exactMatch
        | (None, [p]) \<Rightarrow> Formatted p
        | (None, p # q # ps) \<Rightarrow> Ambiguous (map def_term (p # q # ps))
        | (None, []) \<Rightarrow>
            (case getBestSuggestion defs (toLowerCase t) of
               Some suggestion \<Rightarrow>
                 if suggestion \<noteq> [] then FindNotFound t (Some suggestion) else FindNotFound t None
             | None \<Rightarrow> FindNotFound t None))"

text \<open>
  \<open>Array.prototype.sort\<close> with a comparator: a stable sort. \<open>cmp a b\<close> stands for
  \<open>a.localeCompare(b)\<close>, the collation of the host, which the repository does not define.
\<close>

fun insertSorted :: "(string \<Rightarrow> string \<Rightarrow> int) \<Rightarrow> defn \<Rightarrow> defn list \<Rightarrow> defn list" where
  "insertSorted cmp x [] = [x]"
| "insertSorted cmp x (y # ys) =
     (if cmp (toLowerCase (def_term x)) (toLowerCase (def_term y)) \<le> 0 then x # y # ys
      else y # insertSorted cmp x ys)"

definition sortByTerm :: "(string \<Rightarrow> string \<Rightarrow> int) \<Rightarrow> defn list \<Rightarrow> defn list" where
  "sortByTerm cmp xs = foldr (insertSorted cmp) xs []"

text \<open>
  \<open>listTerms\<close>. Without a tag \<open>termsToList\<close> is the array of the Data module itself
  (\<open>getDefinitions\<close> returns it, not a copy), so \<open>termsToList.sort\<close> sorts the
  collection in place; with a tag \<open>filter\<close> has made a new array and the sort stays local.
\<close>

definition listTerms :: "(string \<Rightarrow> string \<Rightarrow> int) \<Rightarrow> string option \<Rightarrow> state \<Rightarrow> result \<times> state" where
  "listTerms cmp tag st =
     (let sanitizedTag =
            (case tag of None \<Rightarrow> None
             | Some t \<Rightarrow> if t = [] then None else Some (sanitizeHTML (toLowerCase t)))
      in case (case sanitizedTag of None \<Rightarrow> None | Some s \<Rightarrow> if s = [] then None else Some s) of
           Some s \<Rightarrow>
             (let termsToList = filter (\<lambda>d. s \<in> set (map toLowerCase (def_tags d))) (definitions st)
              in if termsToList = [] then (NoTermsFound (Some s), st)
                 else (TermList (Some s) (sortByTerm cmp termsToList), st))
         | None \<Rightarrow>
             (if definitions st = [] then (NoTermsFound None, st)
              else (let sorted = sortByTerm cmp (definitions st)
                    in (TermList None sorted, st\<lparr>definitions := sorted\<rparr>))))"

text \<open>The constant \<open>termToDelete\<close> of \<open>deleteTerm\<close>: the arguments after the command
  word, without the confirmation flag, joined by spaces.\<close>

definition termToDelete :: "string list \<Rightarrow> string" where
  "termToDelete args = join '' '' (filter (\<lambda>arg. arg \<noteq> ''--confirm'') (drop 1 args))"

definition deleteTerm :: "string list \<Rightarrow> state \<Rightarrow> result \<times> state" where
  "deleteTerm args st =
     (let confirmFlag = ''--confirm'';
          t = termToDelete args
      in if t = [] then (UsageDelete, st)
         else case findDefinitionAndIndex (definitions st) t of
             None \<Rightarrow> (TermNotFound t, st)
           | Some (d, index) \<Rightarrow>
               if confirmFlag \<notin> set args then (ConfirmDelete t, st)
               else (Deleted (def_term d),
                     persistDefinitions (st\<lparr>definitions := deleteDefinition index (definitions st)\<rparr>)))"

text \<open>\<open>importDefinitions\<close>, the synchronous part. An array, even an empty one, is truthy.\<close>

definition importDefinitions :: "string list \<Rightarrow> state \<Rightarrow> result \<times> state" where
  "importDefinitions args st =
     (if ''--confirm'' \<in> set args then
        (case pendingImportData st of
           Some newDefs \<Rightarrow>
             (Imported, (persistDefinitions (st\<lparr>definitions := newDefs\<rparr>))\<lparr>pendingImportData := None\<rparr>)
         | None \<Rightarrow> (NoFileLoaded, st))
      else (OpeningFileDialog, st))"

text \<open>
  What the file reader delivers to \<open>reader.onload\<close>, after \<open>JSON.parse\<close>: text that
  does not parse, a value that is not an array, or an array. The elements of the array are
  taken to be objects with the four fields; an absent \<open>term\<close> or \<open>definition\<close> is
  falsy like the empty string, and is the empty string here.
\<close>

datatype fileContent = InvalidJSON | NotAnArray | Entries "defn list"

datatype loadResult = FileLoaded nat | ErrorReadingFile

definition onload :: "fileContent \<Rightarrow> state \<Rightarrow> loadResult \<times> state" where
  "onload content st =
     (case content of
        InvalidJSON \<Rightarrow> (ErrorReadingFile, st\<lparr>pendingImportData := None\<rparr>)
      | NotAnArray \<Rightarrow> (ErrorReadingFile, st\<lparr>pendingImportData := None\<rparr>)
      | Entries data \<Rightarrow>
          (case data of
             d # ds \<Rightarrow>
               if def_term d = [] \<or> def_definition d = []
               then (ErrorReadingFile, st\<lparr>pendingImportData := None\<rparr>)
               else (FileLoaded (length data), st\<lparr>pendingImportData := Some data\<rparr>)
           | [] \<Rightarrow> (FileLoaded (length data), st\<lparr>pendingImportData := Some data\<rparr>)))"

subsection \<open>saveDefinition\<close>

datatype rejection =
    RequiredFields
  | ReservedTerm string
  | TermHasComma
  | ReservedAlias string
  | DuplicateAliases
  | TermIsAlias
  | TermExists string
  | AliasExists string
  | TermInvalid
  | AliasesInvalid
  | TagsInvalid

datatype saveOutcome = Rejected rejection | SavedNew string | Updated string | UpdatedBeyondEnd

text \<open>
  \<open>/^[a-z0-9\s-'.]+$/i\<close> and \<open>/^[a-z0-9-]+$/i\<close>: one or more units, each of the class.
\<close>

definition isAlnum :: "char \<Rightarrow> bool" where
  "isAlnum c =
     (let n = (of_char c :: nat)
      in (97 \<le> n \<and> n \<le> 122) \<or> (65 \<le> n \<and> n \<le> 90) \<or> (48 \<le> n \<and> n \<le> 57))"

definition termRegex :: "string \<Rightarrow> bool" where
  "termRegex s \<longleftrightarrow>
     s \<noteq> [] \<and> list_all (\<lambda>c. isAlnum c \<or> isSpace c \<or> c = CHR ''-'' \<or> c = CHR 0x27 \<or> c = CHR ''.'') s"

definition tagRegex :: "string \<Rightarrow> bool" where
  "tagRegex s \<longleftrightarrow> s \<noteq> [] \<and> list_all (\<lambda>c. isAlnum c \<or> c = CHR ''-'') s"

text \<open>The set built by the \<open>forEach\<close> of lines 247--251, skipping the entry under edit.\<close>

definition allOtherTermsAndAliases :: "nat option \<Rightarrow> defn list \<Rightarrow> string set" where
  "allOtherTermsAndAliases cur defs =
     fold (\<lambda>(index, d) acc.
             if cur = Some index then acc
             else fold (\<lambda>alias s. insert (toLowerCase alias) s) (def_aliases d)
                    (insert (toLowerCase (def_term d)) acc))
          (zip [0..<length defs] defs) {}"

text \<open>
  \<open>saveDefinition\<close> on the values of the editor (\<open>UI.getEditorValues()\<close>). The alias
  that \<open>aliases.find\<close> returns lowercases to a reserved command, so it is a non-empty
  string and the test \<open>if (aliasCollision)\<close> succeeds whenever one is found. In edit mode
  \<open>definitions[currentEditIndex] = def\<close> writes in place; an index past the end would
  leave holes in the array, which a list cannot hold: that outcome is \<open>UpdatedBeyondEnd\<close>
  and the model follows it no further.
\<close>

definition saveDefinition :: "defn \<Rightarrow> state \<Rightarrow> saveOutcome \<times> state" where
  "saveDefinition ev st =
     (let t = def_term ev; aliases = def_aliases ev; tags = def_tags ev; body = def_definition ev;
          termLower = toLowerCase t
      in if t = [] \<or> body = [] then (Rejected RequiredFields, st)
         else if termLower \<in> set RESERVED_COMMANDS then (Rejected (ReservedTerm t), st)
         else if CHR '','' \<in> set t then (Rejected TermHasComma, st)
         else case find (\<lambda>alias. toLowerCase alias \<in> set RESERVED_COMMANDS) aliases of
             Some aliasCollision \<Rightarrow> (Rejected (ReservedAlias aliasCollision), st)
           | None \<Rightarrow>
               (let aliasSet = set (map toLowerCase aliases)
                in if card aliasSet \<noteq> length aliases then (Rejected DuplicateAliases, st)
                   else if termLower \<in> aliasSet then (Rejected TermIsAlias, st)
                   else
                     (let others = allOtherTermsAndAliases (currentEditIndex st) (definitions st)
                      in if termLower \<in> others then (Rejected (TermExists t), st)
                         else case find (\<lambda>alias. toLowerCase alias \<in> others) aliases of
                             Some alias \<Rightarrow> (Rejected (AliasExists alias), st)
                           | None \<Rightarrow>
                               if \<not> termRegex t then (Rejected TermInvalid, st)
                               else if list_ex (\<lambda>alias. \<not> termRegex alias) aliases
                               then (Rejected AliasesInvalid, st)
                               else if list_ex (\<lambda>tag. \<not> tagRegex tag) tags
                               then (Rejected TagsInvalid, st)
                               else (case currentEditIndex st of
                                       Some i \<Rightarrow>
                                         if i < length (definitions st)
                                         then (Updated t,
                                               persistDefinitions
                                                 (st\<lparr>definitions := (definitions st)[i := ev]\<rparr>))
                                         else (UpdatedBeyondEnd, st)
                                     | None \<Rightarrow>
                                         (SavedNew t,
                                          persistDefinitions
                                            (st\<lparr>definitions := addDefinition ev (definitions st)\<rparr>))))))"

subsection \<open>process\<close>

definition process :: "(string \<Rightarrow> string \<Rightarrow> int) \<Rightarrow> string \<Rightarrow> state \<Rightarrow> result \<times> state" where
  "process cmp command st =
     (let commandArgs = split CHR '' '' (trim command);
          baseCommand = toLowerCase (case commandArgs of [] \<Rightarrow> [] | c # cs \<Rightarrow> c);
          searchTerm = join '' '' (drop 1 commandArgs)
      in if baseCommand = ''help'' then (Help, st)
         else if baseCommand = ''clear'' then (TerminalCleared, st\<lparr>commandHistory := []\<rparr>)
         else if baseCommand = ''ls'' \<or> baseCommand = ''list'' then
           listTerms cmp (if 1 < length commandArgs then Some (commandArgs ! 1) else None) st
         else if baseCommand = ''add'' then (EditorOpened None, st\<lparr>currentEditIndex := None\<rparr>)
         else if baseCommand = ''edit'' then
           (if searchTerm = [] then (UsageEdit, st)
            else case findDefinitionAndIndex (definitions st) searchTerm of
                Some (d, index) \<Rightarrow> (EditorOpened (Some d), st\<lparr>currentEditIndex := Some index\<rparr>)
              | None \<Rightarrow> (TermNotFound searchTerm, st))
         else if baseCommand = ''rm'' \<or> baseCommand = ''delete'' then deleteTerm commandArgs st
         else if baseCommand = ''find'' then (findDefinition (definitions st) searchTerm, st)
         else if baseCommand = ''export'' then (Exporting, st)
         else if baseCommand = ''import'' then importDefinitions commandArgs st
         else (findDefinition (definitions st) command, st))"

section \<open>App module\<close>

datatype key = Enter | ArrowUp | ArrowDown | OtherKey

text \<open>
  \<open>history[k]\<close> as assigned to \<open>commandInput.value\<close>: outside the array the read is
  \<open>undefined\<close>, which the input element turns into the text \<open>undefined\<close>.
\<close>

definition historyAt :: "string list \<Rightarrow> int \<Rightarrow> string" where
  "historyAt h k = (if 0 \<le> k \<and> nat k < length h then h ! nat k else ''undefined'')"

definition handleTerminalInput :: "(string \<Rightarrow> string \<Rightarrow> int) \<Rightarrow> key \<Rightarrow> state \<Rightarrow> state" where
  "handleTerminalInput cmp k st =
     (let history = commandHistory st
      in case k of
           Enter \<Rightarrow>
             (let command = trim (commandInput st)
              in if command \<noteq> [] then
                   (let st1 = st\<lparr>commandHistory := addToHistory command (commandHistory st)\<rparr>;
                        st2 = st1\<lparr>historyIndex := int (length (commandHistory st1))\<rparr>;
                        st3 = snd (process cmp command st2)
                    in st3\<lparr>commandInput := []\<rparr>)
                 else st)
         | ArrowUp \<Rightarrow>
             (if historyIndex st > 0
              then st\<lparr>historyIndex := historyIndex st - 1,
                      commandInput := historyAt history (historyIndex st - 1)\<rparr>
              else st)
         | ArrowDown \<Rightarrow>
             (if historyIndex st < int (length history) - 1
              then st\<lparr>historyIndex := historyIndex st + 1,
                      commandInput := historyAt history (historyIndex st + 1)\<rparr>
              else st\<lparr>historyIndex := int (length history), commandInput := []\<rparr>)
         | OtherKey \<Rightarrow> st)"

text \<open>
  The state after \<open>App.initialize()\<close>: the stored collection if there is one, else the
  default one; an empty history; \<open>historyIndex = -1\<close>.
\<close>

definition initialize :: "defn list option \<Rightarrow> defn list \<Rightarrow> state" where
  "initialize stored defaults =
     \<lparr>definitions = (case stored of Some ds \<Rightarrow> ds | None \<Rightarrow> defaults),
      commandHistory = [],
      storage = stored,
      currentEditIndex = None,
      pendingImportData = None,
      historyIndex = - 1,
      commandInput = []\<rparr>"

text \<open>The user types a line into the command input and presses Enter.\<close>

definition enterLine :: "(string \<Rightarrow> string \<Rightarrow> int) \<Rightarrow> string \<Rightarrow> state \<Rightarrow> state" where
  "enterLine cmp line st = handleTerminalInput cmp Enter (st\<lparr>commandInput := line\<rparr>)"

text \<open>
  A comparator for the evaluations below: code units in lexicographic order. On strings of
  lowercase ASCII letters it orders as every collation does.
\<close>

fun codeUnitCompare :: "string \<Rightarrow> string \<Rightarrow> int" where
  "codeUnitCompare [] [] = 0"
| "codeUnitCompare [] (y # ys) = - 1"
| "codeUnitCompare (x # xs) [] = 1"
| "codeUnitCompare (x # xs) (y # ys) =
     (if (of_char x :: nat) < of_char y then - 1
      else if (of_char y :: nat) < of_char x then 1
      else codeUnitCompare xs ys)"

section \<open>Auxiliary notions for the proofs\<close>

definition shape :: "nat \<Rightarrow> nat \<Rightarrow> nat list list \<Rightarrow> bool" where
  "shape A B m \<longleftrightarrow> length m = Suc B \<and> (\<forall>j\<le>B. length (m ! j) = Suc A)"

definition cellD :: "'a list \<Rightarrow> 'a list \<Rightarrow> nat \<Rightarrow> nat \<Rightarrow> nat" where
  "cellD a b i j = lev (rev (take i a)) (rev (take j b))"

definition inv1 :: "nat \<Rightarrow> nat \<Rightarrow> nat \<Rightarrow> nat list list \<Rightarrow> bool" where
  "inv1 A B k m \<longleftrightarrow> shape A B m \<and> (\<forall>i<k. m ! 0 ! i = i)"

definition inv2 :: "nat \<Rightarrow> nat \<Rightarrow> nat \<Rightarrow> nat list list \<Rightarrow> bool" where
  "inv2 A B k m \<longleftrightarrow> shape A B m \<and> (\<forall>i\<le>A. m ! 0 ! i = i) \<and> (\<forall>j<k. m ! j ! 0 = j)"

definition inv3 :: "'a list \<Rightarrow> 'a list \<Rightarrow> nat \<Rightarrow> nat \<Rightarrow> nat list list \<Rightarrow> bool" where
  "inv3 a b j i m \<longleftrightarrow>
     shape (length a) (length b) m \<and> (\<forall>r\<le>length b. m ! r ! 0 = r) \<and>
     (\<forall>r<j. \<forall>c\<le>length a. m ! r ! c = cellD a b c r) \<and>
     (j \<le> length b \<longrightarrow> (\<forall>c<i. m ! j ! c = cellD a b c j))"

text \<open>
  The candidates of \<open>getBestSuggestion\<close> in the order of its two nested \<open>forEach\<close>:
  for each entry its term, then its aliases. \<open>keyDistance q key\<close> is the distance the
  find handler has scored for \<open>key\<close> when the query is \<open>q\<close>.
\<close>

definition suggestionKeys :: "defn list \<Rightarrow> string list" where
  "suggestionKeys defs = concat (map (\<lambda>d. def_term d # def_aliases d) defs)"

definition keyDistance :: "string \<Rightarrow> string \<Rightarrow> nat" where
  "keyDistance q key = levenshteinDistance (toLowerCase q) (toLowerCase key)"

text \<open>
  Position \<open>i\<close> holds the first minimum of \<open>f\<close> over \<open>ks\<close>: strictly below every
  earlier position, not above any position.
\<close>

definition firstMinAt :: "('a \<Rightarrow> nat) \<Rightarrow> 'a list \<Rightarrow> nat \<Rightarrow> bool" where
  "firstMinAt f ks i \<longleftrightarrow>
     i < length ks \<and> list_all (\<lambda>j. f (ks ! i) < f (ks ! j)) [0..<i] \<and>
     list_all (\<lambda>j. f (ks ! i) \<le> f (ks ! j)) [0..<length ks]"

text \<open>The suggestion a result descriptor offers, if any.\<close>

definition offeredSuggestion :: "result \<Rightarrow> string option" where
  "offeredSuggestion r = (case r of FindNotFound t s \<Rightarrow> s | _ \<Rightarrow> None)"

text \<open>Entries for the evaluations.\<close>

definition vectorSpace :: defn where
  "vectorSpace = \<lparr>def_term = ''Vector space'', def_aliases = [], def_tags = [''algebra''],
     def_definition = ''A set closed under addition and scaling.''\<rparr>"

definition vector :: defn where
  "vector = \<lparr>def_term = ''vector'', def_aliases = [''vec''], def_tags = [],
     def_definition = ''An element of a vector space.''\<rparr>"

definition cat :: defn where
  "cat = \<lparr>def_term = ''Cat'', def_aliases = [''cot''], def_tags = [],
     def_definition = ''A small category.''\<rparr>"

definition blankAlias :: defn where
  "blankAlias = \<lparr>def_term = ''wxyz'', def_aliases = [[]], def_tags = [],
     def_definition = ''An entry with an empty alias.''\<rparr>"

text \<open>A running glossary, and entries that break the rules of the data model.\<close>

definition glossary :: state where
  "glossary = initialize None [vectorSpace, vector]"

definition reservedEntry :: defn where
  "reservedEntry = \<lparr>def_term = ''Help'', def_aliases = [], def_tags = [],
     def_definition = ''A reserved word as a term.''\<rparr>"

definition illFormedEntry :: defn where
  "illFormedEntry = \<lparr>def_term = ''a_b'', def_aliases = [], def_tags = [],
     def_definition = ''An underscore in the term.''\<rparr>"

definition emptyBodyEntry :: defn where
  "emptyBodyEntry = \<lparr>def_term = ''void'', def_aliases = [], def_tags = [], def_definition = []\<rparr>"

definition badImport :: "defn list" where
  "badImport = [vector, vector, reservedEntry, illFormedEntry, emptyBodyEntry]"

text \<open>A state in which an edit session is open on the entry at position \<open>i\<close>.\<close>

definition editing :: "defn list \<Rightarrow> nat \<Rightarrow> state" where
  "editing defs i =
     \<lparr>definitions = defs, commandHistory = [], storage = None,
      currentEditIndex = Some i, pendingImportData = None, historyIndex = 0,
      commandInput = []\<rparr>"

text \<open>
  The Validator's verdict on the entry at position \<open>i\<close> of a collection: what
  \<open>saveDefinition\<close> answers when an edit session on that entry resubmits it unchanged.
\<close>

definition verdict :: "defn list \<Rightarrow> nat \<Rightarrow> saveOutcome" where
  "verdict defs i = fst (saveDefinition (defs ! i) (editing defs i))"

text \<open>The state after the file reader has delivered an array and the user has confirmed.\<close>

definition importAndConfirm :: "defn list \<Rightarrow> state \<Rightarrow> state" where
  "importAndConfirm data st =
     snd (importDefinitions [''import'', ''--confirm''] (snd (onload (Entries data) st)))"

text \<open>
  The Validator in the words of its contract: nine checks in a fixed order, the first
  failing one gives the rejection (the collision check and the pattern check each name
  the term before the aliases). A name collides when it equals, up to case, the term or
  an alias of an entry of the collection other than the one at the excluded index.
\<close>

definition collidesWithOther :: "nat option \<Rightarrow> defn list \<Rightarrow> string \<Rightarrow> bool" where
  "collidesWithOther exclude defs name \<longleftrightarrow>
     list_ex (\<lambda>j. exclude \<noteq> Some j \<and> nameMatches (toLowerCase name) (defs ! j)) [0..<length defs]"

definition isReserved :: "string \<Rightarrow> bool" where
  "isReserved name \<longleftrightarrow> toLowerCase name \<in> set RESERVED_COMMANDS"

definition specChecks :: "defn \<Rightarrow> defn list \<Rightarrow> nat option \<Rightarrow> (bool \<times> rejection) list" where
  "specChecks c defs exclude =
     [(def_term c = [] \<or> def_definition c = [], RequiredFields),
      (isReserved (def_term c), ReservedTerm (def_term c)),
      (CHR '','' \<in> set (def_term c), TermHasComma),
      (list_ex isReserved (def_aliases c), ReservedAlias (hd (filter isReserved (def_aliases c)))),
      (\<not> distinct (map toLowerCase (def_aliases c)), DuplicateAliases),
      (toLowerCase (def_term c) \<in> set (map toLowerCase (def_aliases c)), TermIsAlias),
      (collidesWithOther exclude defs (def_term c), TermExists (def_term c)),
      (list_ex (collidesWithOther exclude defs) (def_aliases c),
         AliasExists (hd (filter (collidesWithOther exclude defs) (def_aliases c)))),
      (\<not> termRegex (def_term c), TermInvalid),
      (list_ex (\<lambda>a. \<not> termRegex a) (def_aliases c), AliasesInvalid),
      (list_ex (\<lambda>t. \<not> tagRegex t) (def_tags c), TagsInvalid)]"

definition firstFailure :: "(bool \<times> rejection) list \<Rightarrow> rejection option" where
  "firstFailure checks = map_option snd (find fst checks)"

definition specOutcome :: "defn \<Rightarrow> defn list \<Rightarrow> nat option \<Rightarrow> saveOutcome" where
  "specOutcome c defs exclude =
     (case firstFailure (specChecks c defs exclude) of
        Some r \<Rightarrow> Rejected r
      | None \<Rightarrow>
          (case exclude of
             None \<Rightarrow> SavedNew (def_term c)
           | Some i \<Rightarrow> if i < length defs then Updated (def_term c) else UpdatedBeyondEnd))"

section \<open>Edit distance\<close>

subsection \<open>The recurrence is a metric\<close>

lemma lev_Nil2: "lev xs [] = length xs"
  by (cases xs) simp_all

lemma lev_sym: "lev xs ys = lev ys xs"
proof (induction xs ys rule: lev.induct)
  case (1 ys)
  show ?case by (simp add: lev_Nil2)
next
  case (2 v va)
  show ?case by simp
next
  case (3 x xs y ys)
  then show ?case by (simp add: min.commute min.left_commute eq_commute)
qed

lemma lev_refl: "lev xs xs = 0"
  by (induction xs) simp_all

lemma lev_zero_eq: "lev xs ys = 0 \<Longrightarrow> xs = ys"
proof (induction xs ys rule: lev.induct)
  case (3 x xs y ys)
  from "3.prems" have "lev xs ys + (if x = y then 0 else 1) = 0"
    by (simp add: min_def split: if_splits)
  then have "x = y" and "lev xs ys = 0"
    by (simp_all split: if_splits)
  with "3.IH"(3) show ?case by simp
qed simp_all

lemma lev_zero_iff: "lev xs ys = 0 \<longleftrightarrow> xs = ys"
  using lev_zero_eq lev_refl by metis

lemma lev_drop_left: "lev (x # xs) ys \<le> lev xs ys + 1"
  by (cases ys) (simp_all add: lev_Nil2)

lemma lev_drop_right: "lev xs (y # ys) \<le> lev xs ys + 1"
  by (cases xs) simp_all

lemma lev_both: "lev (x # xs) (y # ys) \<le> lev xs ys + (if x = y then 0 else 1)"
  by simp

lemma lev_le_sum: "lev xs ys \<le> length xs + length ys"
proof (induction xs)
  case Nil
  show ?case by simp
next
  case (Cons x xs)
  have "lev (x # xs) ys \<le> lev xs ys + 1" by (rule lev_drop_left)
  with Cons show ?case by simp
qed

lemma lev_ge_right: "length ys \<le> length xs + lev xs ys"
proof (induction xs ys rule: lev.induct)
  case (3 x xs y ys)
  then show ?case by (simp add: min_def)
qed simp_all

lemma lev_ge_left: "length xs \<le> lev xs ys + length ys"
proof -
  have "length xs \<le> length ys + lev ys xs" by (rule lev_ge_right)
  moreover have "lev ys xs = lev xs ys" by (rule lev_sym)
  ultimately show ?thesis by linarith
qed

lemma lev_Cons_cases:
  "lev (x # xs) (y # ys) = lev xs (y # ys) + 1 \<or>
   lev (x # xs) (y # ys) = lev (x # xs) ys + 1 \<or>
   lev (x # xs) (y # ys) = lev xs ys + (if x = y then 0 else 1)"
  by (simp add: min_def)

lemma lev_triangle: "lev a c \<le> lev a b + lev b c"
proof (induction "length a + length b + length c" arbitrary: a b c rule: less_induct)
  case less
  show ?case
  proof (cases a)
    case Nil
    then show ?thesis using lev_ge_right [of c b] by simp
  next
    case A: (Cons x a')
    show ?thesis
    proof (cases c)
      case Nil
      then show ?thesis using lev_ge_left [of a b] by (simp add: lev_Nil2)
    next
      case C: (Cons z c')
      show ?thesis
      proof (cases b)
        case Nil
        then show ?thesis using lev_le_sum [of a c] by (simp add: lev_Nil2)
      next
        case B: (Cons y b')
        have d1: "lev a c \<le> lev a' c + 1"
          unfolding A by (rule lev_drop_left)
        have d2: "lev a c \<le> lev a c' + 1"
          unfolding C by (rule lev_drop_right)
        have d3: "lev a c \<le> lev a' c' + (if x = z then 0 else 1)"
          unfolding A C by (rule lev_both)
        have i1: "lev a' c \<le> lev a' b + lev b c"
          by (rule less) (simp add: A)
        have i2: "lev a c' \<le> lev a b + lev b c'"
          by (rule less) (simp add: C)
        have i3: "lev a c \<le> lev a b' + lev b' c"
          by (rule less) (simp add: B)
        have i4: "lev a c' \<le> lev a b' + lev b' c'"
          by (rule less) (simp add: B C)
        have i5: "lev a' c \<le> lev a' b' + lev b' c"
          by (rule less) (simp add: A B)
        have i6: "lev a' c' \<le> lev a' b' + lev b' c'"
          by (rule less) (simp add: A B C)
        have ab: "lev a b = lev a' b + 1 \<or> lev a b = lev a b' + 1 \<or>
                  lev a b = lev a' b' + (if x = y then 0 else 1)"
          unfolding A B by (rule lev_Cons_cases)
        have bc: "lev b c = lev b' c + 1 \<or> lev b c = lev b c' + 1 \<or>
                  lev b c = lev b' c' + (if y = z then 0 else 1)"
          unfolding B C by (rule lev_Cons_cases)
        have ind: "(if x = z then 0 else 1) \<le> (if x = y then 0 else 1) + (if y = z then (0::nat) else 1)"
          by simp
        from ab bc d1 d2 d3 i1 i2 i3 i4 i5 i6 ind show ?thesis
          by (elim disjE) linarith+
      qed
    qed
  qed
qed

lemma fold_upt_invariant:
  assumes "lo \<le> hi" and "P lo m"
    and "\<And>k m. lo \<le> k \<Longrightarrow> k < hi \<Longrightarrow> P k m \<Longrightarrow> P (Suc k) (f k m)"
  shows "P hi (fold f [lo..<hi] m)"
  using assms
proof (induction hi)
  case 0
  then show ?case by simp
next
  case (Suc n)
  show ?case
  proof (cases "lo = Suc n")
    case True
    with Suc.prems(2) show ?thesis by simp
  next
    case False
    with Suc.prems(1) have le: "lo \<le> n" by simp
    have "P n (fold f [lo..<n] m)"
      using le Suc.prems(2) Suc.prems(3) by (intro Suc.IH) simp_all
    then have "P (Suc n) (f n (fold f [lo..<n] m))"
      using le by (intro Suc.prems(3)) simp_all
    with le show ?thesis by simp
  qed
qed

lemma nth_setCell:
  "j < length m \<Longrightarrow> i < length (m ! j) \<Longrightarrow>
   setCell m j i v ! j' ! i' = (if j' = j \<and> i' = i then v else m ! j' ! i')"
  by (cases "j' = j") (simp_all add: setCell_def nth_list_update)

lemma shape_setCell:
  assumes "shape A B m"
  shows "shape A B (setCell m j i v)"
proof -
  have len: "length m = Suc B" and rows: "\<And>k. k \<le> B \<Longrightarrow> length (m ! k) = Suc A"
    using assms by (simp_all add: shape_def)
  have "length (setCell m j i v ! k) = Suc A" if "k \<le> B" for k
  proof (cases "k = j")
    case True
    with that len rows [of j] show ?thesis by (simp add: setCell_def)
  next
    case False
    with that rows [of k] show ?thesis by (simp add: setCell_def)
  qed
  with len show ?thesis by (simp add: shape_def setCell_def)
qed

lemma shape_nth:
  "shape A B m \<Longrightarrow> j \<le> B \<Longrightarrow> i \<le> A \<Longrightarrow>
   setCell m j i v ! j' ! i' = (if j' = j \<and> i' = i then v else m ! j' ! i')"
  by (rule nth_setCell) (simp_all add: shape_def)

lemma cellD_0_left: "j \<le> length b \<Longrightarrow> cellD a b 0 j = j"
  by (simp add: cellD_def)

lemma cellD_0_right: "i \<le> length a \<Longrightarrow> cellD a b i 0 = i"
  by (simp add: cellD_def lev_Nil2)

lemma cellD_Suc:
  assumes "i < length a" and "j < length b"
  shows "cellD a b (Suc i) (Suc j) =
     min (min (cellD a b i (Suc j) + 1) (cellD a b (Suc i) j + 1))
         (cellD a b i j + (if a ! i = b ! j then 0 else 1))"
  using assms by (simp add: cellD_def take_Suc_conv_app_nth)

lemma cellD_full: "cellD a b (length a) (length b) = lev (rev a) (rev b)"
  by (simp add: cellD_def)

lemma shape_init: "shape A B (replicate (B + 1) (replicate (A + 1) 0))"
  by (simp add: shape_def del: replicate.simps)

lemma inv1_step:
  assumes "k < A + 1" and "inv1 A B k m"
  shows "inv1 A B (Suc k) (setCell m 0 k k)"
proof -
  from assms(2) have sh: "shape A B m" and old: "\<And>i. i < k \<Longrightarrow> m ! 0 ! i = i"
    by (simp_all add: inv1_def)
  have "setCell m 0 k k ! 0 ! i = i" if "i < Suc k" for i
    using that assms(1) old [of i] by (simp add: shape_nth [OF sh])
  with sh show ?thesis by (simp add: inv1_def shape_setCell)
qed

lemma inv2_step:
  assumes "k < B + 1" and "inv2 A B k m"
  shows "inv2 A B (Suc k) (setCell m k 0 k)"
proof -
  from assms(2) have sh: "shape A B m" and row: "\<And>i. i \<le> A \<Longrightarrow> m ! 0 ! i = i"
    and old: "\<And>j. j < k \<Longrightarrow> m ! j ! 0 = j"
    by (simp_all add: inv2_def)
  have "setCell m k 0 k ! 0 ! i = i" if "i \<le> A" for i
    using that assms(1) row [of i] by (simp add: shape_nth [OF sh])
  moreover have "setCell m k 0 k ! j ! 0 = j" if "j < Suc k" for j
    using that assms(1) old [of j] by (simp add: shape_nth [OF sh])
  ultimately show ?thesis using sh by (simp add: inv2_def shape_setCell)
qed

lemma inv3_cell:
  assumes j: "1 \<le> j" "j \<le> length b" and i: "1 \<le> i" "i < length a + 1"
    and inv: "inv3 a b j i m"
  shows "inv3 a b j (Suc i) (setCell m j i (levCell a b m j i))"
proof -
  from inv have sh: "shape (length a) (length b) m"
    and col: "\<And>r. r \<le> length b \<Longrightarrow> m ! r ! 0 = r"
    and rows: "\<And>r c. r < j \<Longrightarrow> c \<le> length a \<Longrightarrow> m ! r ! c = cellD a b c r"
    and cur: "\<And>c. c < i \<Longrightarrow> m ! j ! c = cellD a b c j"
    using j(2) by (simp_all add: inv3_def)
  obtain i' j' where i': "i = Suc i'" and j': "j = Suc j'"
    using j(1) i(1) by (metis One_nat_def Suc_le_D)
  have "levCell a b m j i = cellD a b i j"
    using i j cur [of i'] rows [of j' i] rows [of j' i']
    by (simp add: levCell_def i' j' cellD_Suc)
  then have new: "setCell m j i (levCell a b m j i) ! r ! c =
      (if r = j \<and> c = i then cellD a b i j else m ! r ! c)" for r c
    using shape_nth [OF sh, of j i] j i by simp
  have "setCell m j i (levCell a b m j i) ! r ! 0 = r" if "r \<le> length b" for r
    using that col [of r] i(1) by (simp add: new)
  moreover have "setCell m j i (levCell a b m j i) ! r ! c = cellD a b c r"
    if "r < j" "c \<le> length a" for r c
    using that rows [of r c] by (simp add: new)
  moreover have "setCell m j i (levCell a b m j i) ! j ! c = cellD a b c j"
    if "c < Suc i" for c
    using that cur [of c] by (simp add: new)
  ultimately show ?thesis using sh j(2) by (simp add: inv3_def shape_setCell)
qed

lemma inv3_row:
  assumes j: "1 \<le> j" "j < length b + 1" and inv: "inv3 a b j 1 m"
  shows "inv3 a b (Suc j) 1 (levRow a b j m)"
proof -
  have "inv3 a b j (length a + 1) (levRow a b j m)"
    unfolding levRow_def
  proof (rule fold_upt_invariant [where P = "inv3 a b j"])
    show "1 \<le> length a + 1" by simp
    show "inv3 a b j 1 m" by (rule inv)
    show "inv3 a b j (Suc k) (setCell m' j k (levCell a b m' j k))"
      if "1 \<le> k" "k < length a + 1" "inv3 a b j k m'" for k m'
      using j that by (intro inv3_cell) simp_all
  qed
  then have sh: "shape (length a) (length b) (levRow a b j m)"
    and col: "\<And>r. r \<le> length b \<Longrightarrow> levRow a b j m ! r ! 0 = r"
    and rows: "\<And>r c. r < j \<Longrightarrow> c \<le> length a \<Longrightarrow> levRow a b j m ! r ! c = cellD a b c r"
    and cur: "\<And>c. c < length a + 1 \<Longrightarrow> levRow a b j m ! j ! c = cellD a b c j"
    using j(2) by (simp_all add: inv3_def)
  have "levRow a b j m ! r ! c = cellD a b c r" if "r < Suc j" "c \<le> length a" for r c
  proof (cases "r = j")
    case True
    with that cur [of c] show ?thesis by simp
  next
    case False
    with that rows [of r c] show ?thesis by simp
  qed
  moreover have "levRow a b j m ! Suc j ! c = cellD a b c (Suc j)"
    if "c < 1" "Suc j \<le> length b" for c
    using that col [of "Suc j"] by (simp add: cellD_0_left)
  ultimately show ?thesis using sh col by (simp add: inv3_def)
qed

lemma levenshteinDistance_lev: "levenshteinDistance a b = lev (rev a) (rev b)"
proof -
  define A where "A = length a"
  define B where "B = length b"
  define matrix0 where "matrix0 = replicate (B + 1) (replicate (A + 1) (0::nat))"
  define matrix1 where "matrix1 = fold (\<lambda>i m. setCell m 0 i i) [0..<A + 1] matrix0"
  define matrix2 where "matrix2 = fold (\<lambda>j m. setCell m j 0 j) [0..<B + 1] matrix1"
  define matrix3 where "matrix3 = fold (levRow a b) [1..<B + 1] matrix2"
  have sh0: "shape A B matrix0"
    unfolding matrix0_def by (rule shape_init)
  have "inv1 A B (A + 1) matrix1"
    unfolding matrix1_def
  proof (rule fold_upt_invariant [where P = "inv1 A B"])
    show "inv1 A B 0 matrix0" using sh0 by (simp add: inv1_def)
  qed (simp_all add: inv1_step)
  then have "inv2 A B 0 matrix1" by (simp add: inv1_def inv2_def)
  have "inv2 A B (B + 1) matrix2"
    unfolding matrix2_def
  proof (rule fold_upt_invariant [where P = "inv2 A B"])
    show "inv2 A B 0 matrix1" by fact
  qed (simp_all add: inv2_step)
  then have sh: "shape A B matrix2" and row: "\<And>i. i \<le> A \<Longrightarrow> matrix2 ! 0 ! i = i"
    and col: "\<And>j. j \<le> B \<Longrightarrow> matrix2 ! j ! 0 = j"
    by (simp_all add: inv2_def)
  have start: "inv3 a b 1 1 matrix2"
    using sh row col by (simp add: inv3_def A_def B_def cellD_0_left cellD_0_right)
  have "inv3 a b (B + 1) 1 matrix3"
    unfolding matrix3_def
  proof (rule fold_upt_invariant [where P = "\<lambda>j. inv3 a b j 1"])
    show "inv3 a b 1 1 matrix2" by (rule start)
    show "inv3 a b (Suc k) 1 (levRow a b k m)" if "1 \<le> k" "k < B + 1" "inv3 a b k 1 m" for k m
      using that by (intro inv3_row) (simp_all add: B_def)
  qed simp
  then have "matrix3 ! B ! A = cellD a b A B"
    by (simp add: inv3_def A_def B_def)
  then show ?thesis
    by (simp add: levenshteinDistance_def Let_def cellD_full
        A_def B_def matrix0_def matrix1_def matrix2_def matrix3_def)
qed

subsection \<open>The distance of the source\<close>

text \<open>
  Claim C8. The distance that \<open>levenshteinDistance\<close> computes with its matrix is
  symmetric, is zero exactly when the two strings are equal, and obeys the triangle
  inequality, for all strings.
\<close>

theorem levenshteinDistance_metric:
  "levenshteinDistance a b = levenshteinDistance b a \<and>
   (levenshteinDistance a b = 0 \<longleftrightarrow> a = b) \<and>
   levenshteinDistance a c \<le> levenshteinDistance a b + levenshteinDistance b c"
proof (intro conjI)
  show "levenshteinDistance a b = levenshteinDistance b a"
    unfolding levenshteinDistance_lev by (rule lev_sym)
  show "levenshteinDistance a b = 0 \<longleftrightarrow> a = b"
    unfolding levenshteinDistance_lev by (simp add: lev_zero_iff)
  show "levenshteinDistance a c \<le> levenshteinDistance a b + levenshteinDistance b c"
    unfolding levenshteinDistance_lev by (rule lev_triangle)
qed

theorem levenshteinDistance_metric_witness:
  "levenshteinDistance ''vec3'' ''vector'' = levenshteinDistance ''vector'' ''vec3'' \<and>
   levenshteinDistance ''vec3'' ''vector'' \<noteq> 0 \<and>
   levenshteinDistance ''vec3'' ''vecot'' \<le>
     levenshteinDistance ''vec3'' ''vector'' + levenshteinDistance ''vector'' ''vecot''"
  using levenshteinDistance_metric [of "''vec3''" "''vector''" "''vecot''"] by simp

section \<open>Match engine\<close>

subsection \<open>The loop of findMatches\<close>

lemma findLoop_Some:
  "findLoop q defs acc = (Some d, ps) \<Longrightarrow>
   \<exists>pre post. defs = pre @ d # post \<and> nameMatches q d \<and> (\<forall>e\<in>set pre. \<not> nameMatches q e)"
proof (induction defs arbitrary: acc)
  case Nil
  then show ?case by simp
next
  case (Cons x xs)
  show ?case
  proof (cases "nameMatches q x")
    case True
    with Cons.prems have "d = x" by simp
    with True have "x # xs = [] @ d # xs \<and> nameMatches q d \<and> (\<forall>e\<in>set []. \<not> nameMatches q e)"
      by simp
    then show ?thesis by blast
  next
    case False
    with Cons.prems have "\<exists>acc'. findLoop q xs acc' = (Some d, ps)"
      by (auto split: if_splits)
    then obtain pre post where
      "xs = pre @ d # post" "nameMatches q d" "\<forall>e\<in>set pre. \<not> nameMatches q e"
      using Cons.IH by blast
    with False have
      "x # xs = (x # pre) @ d # post \<and> nameMatches q d \<and> (\<forall>e\<in>set (x # pre). \<not> nameMatches q e)"
      by simp
    then show ?thesis by blast
  qed
qed

lemma findLoop_hit:
  "\<exists>d\<in>set defs. nameMatches q d \<Longrightarrow> \<exists>d ps. findLoop q defs acc = (Some d, ps)"
  by (induction defs arbitrary: acc) auto

lemma findLoop_None:
  "\<forall>d\<in>set defs. \<not> nameMatches q d \<Longrightarrow>
   findLoop q defs acc = (None, acc @ filter (nameContains q) defs)"
  by (induction defs arbitrary: acc) auto

lemma findLoop_None_result:
  "findLoop q defs acc = (None, ps) \<Longrightarrow> ps = acc @ filter (nameContains q) defs"
proof (induction defs arbitrary: acc)
  case Nil
  then show ?case by simp
next
  case (Cons d defs)
  show ?case
  proof (cases "nameContains q d")
    case True
    with Cons.prems have "findLoop q defs (acc @ [d]) = (None, ps)"
      by (simp split: if_splits)
    from Cons.IH [OF this] True show ?thesis by simp
  next
    case False
    with Cons.prems have "findLoop q defs acc = (None, ps)"
      by (simp split: if_splits)
    from Cons.IH [OF this] False show ?thesis by simp
  qed
qed

lemma findMatches_no_exact:
  "\<forall>d\<in>set defs. \<not> nameMatches (toLowerCase q) d \<Longrightarrow>
   findMatches defs q = (None, filter (nameContains (toLowerCase q)) defs)"
  by (simp add: findMatches_def findLoop_None)

lemma findMatches_exact:
  assumes "\<exists>d\<in>set defs. nameMatches (toLowerCase q) d"
  shows "\<exists>pre d post. defs = pre @ d # post \<and> nameMatches (toLowerCase q) d \<and>
           (\<forall>e\<in>set pre. \<not> nameMatches (toLowerCase q) e) \<and> findMatches defs q = (Some d, [])"
proof -
  from findLoop_hit [OF assms, of "[]"] obtain d ps
    where run: "findLoop (toLowerCase q) defs [] = (Some d, ps)" by blast
  from findLoop_Some [OF run] obtain pre post where
    "defs = pre @ d # post" "nameMatches (toLowerCase q) d"
    "\<forall>e\<in>set pre. \<not> nameMatches (toLowerCase q) e" by blast
  moreover from run have "findMatches defs q = (Some d, [])"
    by (simp add: findMatches_def)
  ultimately show ?thesis by blast
qed

lemma findMatches_None_Nil:
  assumes "findMatches defs q = (None, [])"
  shows "filter (nameContains (toLowerCase q)) defs = []"
proof -
  obtain e ps where run: "findLoop (toLowerCase q) defs [] = (e, ps)"
    by (cases "findLoop (toLowerCase q) defs []")
  with assms have "e = None" "ps = []"
    by (simp_all add: findMatches_def split: option.splits)
  with findLoop_None_result [of "toLowerCase q" defs "[]" ps] run show ?thesis by simp
qed

text \<open>
  Claim C2. For every query and every collection: if the term or an alias of some entry
  equals the query up to case, \<open>Data.find\<close> returns the first such entry in the order of
  the collection together with an empty list of partial matches, whatever other entries
  contain the query, before or after it; and the find handler, given a non-empty query,
  shows that entry.
\<close>

theorem find_exact_first:
  assumes "\<exists>d\<in>set defs. nameMatches (toLowerCase q) d"
  shows "\<exists>pre d post. defs = pre @ d # post \<and> nameMatches (toLowerCase q) d \<and>
           (\<forall>e\<in>set pre. \<not> nameMatches (toLowerCase q) e) \<and>
           findMatches defs q = (Some d, []) \<and>
           (q \<noteq> [] \<longrightarrow> findDefinition defs q = Formatted d)"
proof -
  from findMatches_exact [OF assms] obtain pre d post where
    *: "defs = pre @ d # post" "nameMatches (toLowerCase q) d"
    "\<forall>e\<in>set pre. \<not> nameMatches (toLowerCase q) e" "findMatches defs q = (Some d, [])" by blast
  from *(4) have "q \<noteq> [] \<longrightarrow> findDefinition defs q = Formatted d"
    by (simp add: findDefinition_def)
  with * show ?thesis by blast
qed

theorem find_exact_first_witness:
  "(\<exists>d\<in>set [vectorSpace, vector]. nameMatches (toLowerCase ''VEC'') d) \<and>
   findMatches [vectorSpace, vector] ''VEC'' = (Some vector, []) \<and>
   findDefinition [vectorSpace, vector] ''VEC'' = Formatted vector"
proof -
  have h: "\<exists>d\<in>set [vectorSpace, vector]. nameMatches (toLowerCase ''VEC'') d"
    by code_simp
  have v: "findMatches [vectorSpace, vector] ''VEC'' = (Some vector, [])"
    by code_simp
  from find_exact_first [OF h] obtain d where
    "findMatches [vectorSpace, vector] ''VEC'' = (Some d, [])"
    "''VEC'' \<noteq> [] \<longrightarrow> findDefinition [vectorSpace, vector] ''VEC'' = Formatted d"
    by blast
  with v have "findDefinition [vectorSpace, vector] ''VEC'' = Formatted vector" by simp
  with h v show ?thesis by simp
qed

text \<open>
  Claim C9, amended to non-empty queries. For every non-empty query that no term or alias
  equals up to case: if exactly one entry has a term or alias containing the query up
  to case, the find handler shows that entry; if two or more have, it answers with the
  ambiguity listing of the terms (not the aliases) of all of them, in the order of the
  collection, as many as there are hits.
\<close>

theorem find_partial:
  assumes "q \<noteq> []" and "\<forall>d\<in>set defs. \<not> nameMatches (toLowerCase q) d"
  shows "(filter (nameContains (toLowerCase q)) defs = [d] \<longrightarrow>
            findDefinition defs q = Formatted d) \<and>
         (2 \<le> length (filter (nameContains (toLowerCase q)) defs) \<longrightarrow>
            findDefinition defs q =
              Ambiguous (map def_term (filter (nameContains (toLowerCase q)) defs)) \<and>
            length (map def_term (filter (nameContains (toLowerCase q)) defs)) =
              length (filter (nameContains (toLowerCase q)) defs))"
proof -
  let ?hits = "filter (nameContains (toLowerCase q)) defs"
  have m: "findMatches defs q = (None, ?hits)"
    using assms(2) by (rule findMatches_no_exact)
  have one: "findDefinition defs q = Formatted d" if "?hits = [d]"
    using assms(1) m that by (simp add: findDefinition_def)
  have many: "findDefinition defs q = Ambiguous (map def_term ?hits)" if "2 \<le> length ?hits"
  proof -
    from that obtain x y zs where "?hits = x # y # zs"
      by (cases ?hits; cases "tl ?hits") auto
    with assms(1) m show ?thesis by (simp add: findDefinition_def)
  qed
  from one many show ?thesis by simp
qed

theorem find_partial_witness:
  "\<not> nameMatches (toLowerCase ''vect'') vectorSpace \<and>
   \<not> nameMatches (toLowerCase ''vect'') vector \<and>
   findDefinition [vectorSpace, vector] ''vect'' = Ambiguous [''Vector space'', ''vector''] \<and>
   \<not> nameMatches (toLowerCase ''space'') vectorSpace \<and>
   \<not> nameMatches (toLowerCase ''space'') vector \<and>
   findDefinition [vectorSpace, vector] ''space'' = Formatted vectorSpace"
proof -
  have a: "\<not> nameMatches (toLowerCase ''vect'') vectorSpace"
    "\<not> nameMatches (toLowerCase ''vect'') vector"
    "\<not> nameMatches (toLowerCase ''space'') vectorSpace"
    "\<not> nameMatches (toLowerCase ''space'') vector"
    by code_simp+
  have f1: "filter (nameContains (toLowerCase ''vect'')) [vectorSpace, vector] = [vectorSpace, vector]"
    by code_simp
  have f2: "filter (nameContains (toLowerCase ''space'')) [vectorSpace, vector] = [vectorSpace]"
    by code_simp
  have t: "map def_term [vectorSpace, vector] = [''Vector space'', ''vector'']"
    by code_simp
  have "findDefinition [vectorSpace, vector] ''vect'' = Ambiguous [''Vector space'', ''vector'']"
    using find_partial [of "''vect''" "[vectorSpace, vector]"] a f1 t by simp
  moreover have "findDefinition [vectorSpace, vector] ''space'' = Formatted vectorSpace"
    using find_partial [of "''space''" "[vectorSpace, vector]" vectorSpace] a f2 by simp
  ultimately show ?thesis using a by simp
qed

text \<open>
  The claim as stated covers the empty query too. There the handler answers with the
  usage message before it searches, although no name equals the empty query and the one
  entry of the collection contains it.
\<close>

theorem find_partial_counterexample:
  "\<not> nameMatches (toLowerCase []) vector \<and>
   filter (nameContains (toLowerCase [])) [vector] = [vector] \<and>
   findDefinition [vector] [] = UsageFind \<and>
   findDefinition [vector] [] \<noteq> Formatted vector"
  by code_simp

subsection \<open>The suggestion\<close>

lemma firstMinAt_iff:
  "firstMinAt f ks i \<longleftrightarrow>
     i < length ks \<and> (\<forall>j<i. f (ks ! i) < f (ks ! j)) \<and> (\<forall>j<length ks. f (ks ! i) \<le> f (ks ! j))"
  by (auto simp: firstMinAt_def list_all_iff)

lemma firstMinAt_unique:
  assumes "firstMinAt f ks i" and "firstMinAt f ks j"
  shows "i = j"
proof (rule ccontr)
  assume "i \<noteq> j"
  then consider "i < j" | "j < i" by linarith
  then show False
  proof cases
    case 1
    with assms have "f (ks ! j) < f (ks ! i)" "f (ks ! i) \<le> f (ks ! j)"
      by (simp_all add: firstMinAt_iff)
    then show False by simp
  next
    case 2
    with assms have "f (ks ! i) < f (ks ! j)" "f (ks ! j) \<le> f (ks ! i)"
      by (simp_all add: firstMinAt_iff)
    then show False by simp
  qed
qed

lemma firstMinAt_snoc_new:
  assumes "firstMinAt f ks i" and "f k < f (ks ! i)"
  shows "firstMinAt f (ks @ [k]) (length ks)"
proof -
  from assms(1) have all: "\<And>j. j < length ks \<Longrightarrow> f (ks ! i) \<le> f (ks ! j)"
    by (simp add: firstMinAt_iff)
  have "f k < f ((ks @ [k]) ! j)" if "j < length ks" for j
    using that all [of j] assms(2) by (simp add: nth_append)
  moreover have "f k \<le> f ((ks @ [k]) ! j)" if "j < Suc (length ks)" for j
    using that all [of j] assms(2) by (cases "j = length ks") (simp_all add: nth_append)
  ultimately show ?thesis by (simp add: firstMinAt_iff)
qed

lemma firstMinAt_snoc_keep:
  assumes "firstMinAt f ks i" and "\<not> f k < f (ks ! i)"
  shows "firstMinAt f (ks @ [k]) i"
proof -
  from assms(1) have i: "i < length ks"
    and before: "\<And>j. j < i \<Longrightarrow> f (ks ! i) < f (ks ! j)"
    and all: "\<And>j. j < length ks \<Longrightarrow> f (ks ! i) \<le> f (ks ! j)"
    by (simp_all add: firstMinAt_iff)
  have "f ((ks @ [k]) ! i) < f ((ks @ [k]) ! j)" if "j < i" for j
    using that i before [of j] by (simp add: nth_append)
  moreover have "f ((ks @ [k]) ! i) \<le> f ((ks @ [k]) ! j)" if "j < Suc (length ks)" for j
    using that i all [of j] assms(2) by (cases "j = length ks") (simp_all add: nth_append)
  ultimately show ?thesis using i by (simp add: firstMinAt_iff)
qed

lemma suggestStep_start:
  "suggestStep t k (None, None) = (Some k, Some (levenshteinDistance t (toLowerCase k)))"
  by (simp add: suggestStep_def)

lemma suggestStep_next:
  "suggestStep t k (Some b, Some d) =
     (if levenshteinDistance t (toLowerCase k) < d
      then (Some k, Some (levenshteinDistance t (toLowerCase k))) else (Some b, Some d))"
  by (simp add: suggestStep_def)

lemma fold_suggestStep:
  assumes "ks \<noteq> []"
  shows "\<exists>i. firstMinAt (\<lambda>k. levenshteinDistance t (toLowerCase k)) ks i \<and>
           fold (suggestStep t) ks (None, None) =
             (Some (ks ! i), Some (levenshteinDistance t (toLowerCase (ks ! i))))"
  using assms
proof (induction ks rule: rev_induct)
  case Nil
  then show ?case by simp
next
  case (snoc k ks)
  let ?f = "\<lambda>k. levenshteinDistance t (toLowerCase k)"
  show ?case
  proof (cases "ks = []")
    case True
    have "firstMinAt ?f [k] 0" by (simp add: firstMinAt_iff)
    moreover have "fold (suggestStep t) [k] (None, None) = (Some ([k] ! 0), Some (?f ([k] ! 0)))"
      by (simp add: suggestStep_start)
    ultimately show ?thesis using True by auto
  next
    case False
    with snoc.IH obtain i where i: "firstMinAt ?f ks i"
      and run: "fold (suggestStep t) ks (None, None) = (Some (ks ! i), Some (?f (ks ! i)))"
      by blast
    from i have ilen: "i < length ks" by (simp add: firstMinAt_iff)
    show ?thesis
    proof (cases "?f k < ?f (ks ! i)")
      case True
      with i have "firstMinAt ?f (ks @ [k]) (length ks)" by (rule firstMinAt_snoc_new)
      moreover have "fold (suggestStep t) (ks @ [k]) (None, None) =
          (Some ((ks @ [k]) ! length ks), Some (?f ((ks @ [k]) ! length ks)))"
        using True by (simp add: run suggestStep_next)
      ultimately show ?thesis by blast
    next
      case notless: False
      with i have "firstMinAt ?f (ks @ [k]) i" by (rule firstMinAt_snoc_keep)
      moreover have "fold (suggestStep t) (ks @ [k]) (None, None) =
          (Some ((ks @ [k]) ! i), Some (?f ((ks @ [k]) ! i)))"
        using notless ilen by (simp add: run suggestStep_next nth_append)
      ultimately show ?thesis by blast
    qed
  qed
qed

lemma fold_nested:
  "fold (\<lambda>d best. fold f (g d) best) defs b = fold f (concat (map g defs)) b"
  by (induction defs arbitrary: b) simp_all

lemma getBestSuggestion_keys:
  "getBestSuggestion defs t =
     (let bestMatch = fold (suggestStep t) (suggestionKeys defs) (None, None)
      in if (case snd bestMatch of None \<Rightarrow> False | Some d \<Rightarrow> d \<le> 3)
         then fst bestMatch else None)"
  by (simp only: getBestSuggestion_def suggestionKeys_def fold_nested)

lemma getBestSuggestion_iff:
  "getBestSuggestion defs t = Some k \<longleftrightarrow>
     (\<exists>i. firstMinAt (\<lambda>key. levenshteinDistance t (toLowerCase key)) (suggestionKeys defs) i \<and>
          suggestionKeys defs ! i = k \<and> levenshteinDistance t (toLowerCase k) \<le> 3)"
proof (cases "suggestionKeys defs = []")
  case True
  then have "getBestSuggestion defs t = None"
    by (simp add: getBestSuggestion_keys)
  moreover from True have "\<not> firstMinAt f (suggestionKeys defs) i" for f :: "string \<Rightarrow> nat" and i
    by (simp add: firstMinAt_iff)
  ultimately show ?thesis by simp
next
  case False
  let ?f = "\<lambda>key. levenshteinDistance t (toLowerCase key)"
  let ?ks = "suggestionKeys defs"
  from fold_suggestStep [OF False, of t] obtain i where i: "firstMinAt ?f ?ks i"
    and run: "fold (suggestStep t) ?ks (None, None) = (Some (?ks ! i), Some (?f (?ks ! i)))"
    by blast
  have val: "getBestSuggestion defs t = (if ?f (?ks ! i) \<le> 3 then Some (?ks ! i) else None)"
    using run by (simp add: getBestSuggestion_keys)
  show ?thesis
  proof
    assume "getBestSuggestion defs t = Some k"
    with val have "?ks ! i = k" "?f k \<le> 3" by (simp_all split: if_splits)
    with i show "\<exists>i. firstMinAt ?f ?ks i \<and> ?ks ! i = k \<and> ?f k \<le> 3" by blast
  next
    assume "\<exists>i. firstMinAt ?f ?ks i \<and> ?ks ! i = k \<and> ?f k \<le> 3"
    then obtain j where j: "firstMinAt ?f ?ks j" "?ks ! j = k" "?f k \<le> 3" by blast
    from i j(1) have "i = j" by (rule firstMinAt_unique)
    with j val show "getBestSuggestion defs t = Some k" by simp
  qed
qed

text \<open>
  Claim C5, amended by the clause on the empty string. When the find handler has neither
  an exact nor a partial match, it offers the suggestion \<open>k\<close> if and only if \<open>k\<close> is
  the candidate at the first minimum of the distance to the lowercased query, over the
  terms and aliases of all entries in collection order with each term before its own
  aliases, that distance is at most 3, and \<open>k\<close> is not the empty string. On an empty
  collection there is no candidate and so no suggestion.
\<close>

theorem find_suggestion:
  assumes "findMatches defs q = (None, [])"
  shows "offeredSuggestion (findDefinition defs q) = Some k \<longleftrightarrow>
     k \<noteq> [] \<and>
     (\<exists>i. firstMinAt (keyDistance q) (suggestionKeys defs) i \<and>
          suggestionKeys defs ! i = k \<and> keyDistance q k \<le> 3)"
proof (cases "q = []")
  case True
  have "nameContains [] d" for d
    by (simp add: nameContains_def stringIncludes_def)
  moreover from findMatches_None_Nil [OF assms] True have "filter (nameContains []) defs = []"
    by (simp add: toLowerCase_def)
  ultimately have "defs = []" by (simp add: filter_empty_conv)
  then show ?thesis using True
    by (simp add: findDefinition_def offeredSuggestion_def suggestionKeys_def firstMinAt_iff)
next
  case False
  have kd: "keyDistance q = (\<lambda>key. levenshteinDistance (toLowerCase q) (toLowerCase key))"
    by (rule ext) (simp add: keyDistance_def)
  have "offeredSuggestion (findDefinition defs q) = Some k \<longleftrightarrow>
      k \<noteq> [] \<and> getBestSuggestion defs (toLowerCase q) = Some k"
    using assms False
    by (auto simp: findDefinition_def offeredSuggestion_def split: option.splits)
  then show ?thesis
    unfolding getBestSuggestion_iff kd by simp
qed

theorem find_suggestion_witness:
  "findMatches [vector, cat] ''cut'' = (None, []) \<and>
   firstMinAt (keyDistance ''cut'') (suggestionKeys [vector, cat]) 2 \<and>
   suggestionKeys [vector, cat] ! 2 = ''Cat'' \<and>
   keyDistance ''cut'' ''Cat'' = 1 \<and>
   keyDistance ''cut'' ''cot'' = 1 \<and>
   offeredSuggestion (findDefinition [vector, cat] ''cut'') = Some ''Cat''"
proof -
  have h: "findMatches [vector, cat] ''cut'' = (None, [])"
    by code_simp
  have m: "firstMinAt (keyDistance ''cut'') (suggestionKeys [vector, cat]) 2"
    by code_simp
  have k: "suggestionKeys [vector, cat] ! 2 = ''Cat''"
    by code_simp
  have d: "keyDistance ''cut'' ''Cat'' = 1" "keyDistance ''cut'' ''cot'' = 1"
    by code_simp+
  from m k d have "offeredSuggestion (findDefinition [vector, cat] ''cut'') = Some ''Cat''"
    unfolding find_suggestion [OF h, of "''Cat''"] by auto
  with h m k d show ?thesis by simp
qed

text \<open>
  The claim as stated offers a suggestion whenever the minimum distance is at most 3.
  With an empty alias in the collection the query \<open>ab\<close> has its first minimum, 2, at
  that alias; \<open>getBestSuggestion\<close> returns the empty string, the handler tests it for
  truthiness, and no suggestion is offered.
\<close>

theorem find_suggestion_counterexample:
  "findMatches [blankAlias] ''ab'' = (None, []) \<and>
   firstMinAt (keyDistance ''ab'') (suggestionKeys [blankAlias]) 1 \<and>
   keyDistance ''ab'' (suggestionKeys [blankAlias] ! 1) = 2 \<and>
   offeredSuggestion (findDefinition [blankAlias] ''ab'') = None"
  by code_simp

section \<open>Command dispatcher\<close>

subsection \<open>delete\<close>

lemma findIndex_Some:
  "findIndex P xs = Some i \<Longrightarrow> i < length xs \<and> P (xs ! i) \<and> (\<forall>j<i. \<not> P (xs ! j))"
proof (induction xs arbitrary: i)
  case Nil
  then show ?case by simp
next
  case (Cons x xs)
  show ?case
  proof (cases "P x")
    case True
    with Cons.prems show ?thesis by simp
  next
    case False
    with Cons.prems obtain k where k: "findIndex P xs = Some k" "i = Suc k"
      by (auto split: option.splits)
    from Cons.IH [OF k(1)] have "k < length xs" "P (xs ! k)" "\<forall>j<k. \<not> P (xs ! j)"
      by simp_all
    with False k(2) show ?thesis by (auto simp: nth_Cons split: nat.splits)
  qed
qed

lemma findIndex_None: "findIndex P xs = None \<longleftrightarrow> (\<forall>x\<in>set xs. \<not> P x)"
  by (induction xs) (auto split: option.splits)

lemma length_deleteDefinition:
  "i < length defs \<Longrightarrow> length (deleteDefinition i defs) + 1 = length defs"
  by (simp add: deleteDefinition_def)

text \<open>
  Claim C4. For every collection and every argument list of \<open>delete\<close> or \<open>rm\<close>: with
  no term argument the answer is the usage message; a term that no entry carries as its
  term or an alias, up to case, is reported as not found, with or without the flag; a term
  that resolves, without \<open>--confirm\<close>, gets the confirmation prompt and the state stays
  as it is; with \<open>--confirm\<close> the first entry that carries the term is removed, the
  collection is shorter by exactly one, and the new collection is persisted.
\<close>

theorem deleteTerm_two_phase:
  "(termToDelete args = [] \<longrightarrow> deleteTerm args st = (UsageDelete, st)) \<and>
   (termToDelete args \<noteq> [] \<and>
    (\<forall>d\<in>set (definitions st). \<not> nameMatches (toLowerCase (termToDelete args)) d) \<longrightarrow>
      deleteTerm args st = (TermNotFound (termToDelete args), st)) \<and>
   (termToDelete args \<noteq> [] \<and>
    (\<exists>d\<in>set (definitions st). nameMatches (toLowerCase (termToDelete args)) d) \<and>
    ''--confirm'' \<notin> set args \<longrightarrow>
      deleteTerm args st = (ConfirmDelete (termToDelete args), st)) \<and>
   (termToDelete args \<noteq> [] \<and>
    (\<exists>d\<in>set (definitions st). nameMatches (toLowerCase (termToDelete args)) d) \<and>
    ''--confirm'' \<in> set args \<longrightarrow>
      (\<exists>i<length (definitions st).
         nameMatches (toLowerCase (termToDelete args)) (definitions st ! i) \<and>
         (\<forall>j<i. \<not> nameMatches (toLowerCase (termToDelete args)) (definitions st ! j)) \<and>
         fst (deleteTerm args st) = Deleted (def_term (definitions st ! i)) \<and>
         definitions (snd (deleteTerm args st)) =
           take i (definitions st) @ drop (Suc i) (definitions st) \<and>
         length (definitions (snd (deleteTerm args st))) + 1 = length (definitions st) \<and>
         storage (snd (deleteTerm args st)) = Some (definitions (snd (deleteTerm args st)))))"
proof (intro conjI impI)
  show "deleteTerm args st = (UsageDelete, st)" if "termToDelete args = []"
    using that by (simp add: deleteTerm_def)
next
  assume a: "termToDelete args \<noteq> [] \<and>
    (\<forall>d\<in>set (definitions st). \<not> nameMatches (toLowerCase (termToDelete args)) d)"
  then have "findIndex (nameMatches (toLowerCase (termToDelete args))) (definitions st) = None"
    by (simp add: findIndex_None)
  with a show "deleteTerm args st = (TermNotFound (termToDelete args), st)"
    by (simp add: deleteTerm_def findDefinitionAndIndex_def)
next
  assume a: "termToDelete args \<noteq> [] \<and>
    (\<exists>d\<in>set (definitions st). nameMatches (toLowerCase (termToDelete args)) d) \<and>
    ''--confirm'' \<notin> set args"
  then obtain i where
    "findIndex (nameMatches (toLowerCase (termToDelete args))) (definitions st) = Some i"
    using findIndex_None [of "nameMatches (toLowerCase (termToDelete args))" "definitions st"]
    by (cases "findIndex (nameMatches (toLowerCase (termToDelete args))) (definitions st)") auto
  with a show "deleteTerm args st = (ConfirmDelete (termToDelete args), st)"
    by (simp add: deleteTerm_def findDefinitionAndIndex_def)
next
  assume a: "termToDelete args \<noteq> [] \<and>
    (\<exists>d\<in>set (definitions st). nameMatches (toLowerCase (termToDelete args)) d) \<and>
    ''--confirm'' \<in> set args"
  then obtain i where
    i: "findIndex (nameMatches (toLowerCase (termToDelete args))) (definitions st) = Some i"
    using findIndex_None [of "nameMatches (toLowerCase (termToDelete args))" "definitions st"]
    by (cases "findIndex (nameMatches (toLowerCase (termToDelete args))) (definitions st)") auto
  from findIndex_Some [OF i] have
    len: "i < length (definitions st)"
    and hit: "nameMatches (toLowerCase (termToDelete args)) (definitions st ! i)"
    and first: "\<forall>j<i. \<not> nameMatches (toLowerCase (termToDelete args)) (definitions st ! j)"
    by simp_all
  have run: "deleteTerm args st =
      (Deleted (def_term (definitions st ! i)),
       persistDefinitions (st\<lparr>definitions := deleteDefinition i (definitions st)\<rparr>))"
    using a i by (simp add: deleteTerm_def findDefinitionAndIndex_def)
  have "definitions (snd (deleteTerm args st)) =
      take i (definitions st) @ drop (Suc i) (definitions st)"
    by (simp add: run persistDefinitions_def deleteDefinition_def)
  moreover have "length (definitions (snd (deleteTerm args st))) + 1 = length (definitions st)"
    using len by (simp add: run persistDefinitions_def deleteDefinition_def)
  moreover have "storage (snd (deleteTerm args st)) = Some (definitions (snd (deleteTerm args st)))"
    by (simp add: run persistDefinitions_def)
  moreover have "fst (deleteTerm args st) = Deleted (def_term (definitions st ! i))"
    by (simp add: run)
  ultimately show "\<exists>i<length (definitions st).
         nameMatches (toLowerCase (termToDelete args)) (definitions st ! i) \<and>
         (\<forall>j<i. \<not> nameMatches (toLowerCase (termToDelete args)) (definitions st ! j)) \<and>
         fst (deleteTerm args st) = Deleted (def_term (definitions st ! i)) \<and>
         definitions (snd (deleteTerm args st)) =
           take i (definitions st) @ drop (Suc i) (definitions st) \<and>
         length (definitions (snd (deleteTerm args st))) + 1 = length (definitions st) \<and>
         storage (snd (deleteTerm args st)) = Some (definitions (snd (deleteTerm args st)))"
    using len hit first by blast
qed

theorem deleteTerm_two_phase_witness:
  "termToDelete [''delete''] = [] \<and>
   deleteTerm [''delete''] glossary = (UsageDelete, glossary) \<and>
   deleteTerm [''delete'', ''nope'', ''--confirm''] glossary = (TermNotFound ''nope'', glossary) \<and>
   deleteTerm [''delete'', ''vec''] glossary = (ConfirmDelete ''vec'', glossary) \<and>
   length (definitions (snd (deleteTerm [''rm'', ''vec'', ''--confirm''] glossary))) + 1 =
     length (definitions glossary)"
proof -
  have d: "definitions glossary = [vectorSpace, vector]"
    by (simp add: glossary_def initialize_def)
  have t: "termToDelete [''delete''] = []"
    "termToDelete [''delete'', ''nope'', ''--confirm''] = ''nope''"
    "termToDelete [''delete'', ''vec''] = ''vec''"
    "termToDelete [''rm'', ''vec'', ''--confirm''] = ''vec''"
    by (simp_all add: termToDelete_def)
  have n: "\<not> nameMatches (toLowerCase ''nope'') vectorSpace"
    "\<not> nameMatches (toLowerCase ''nope'') vector"
    "nameMatches (toLowerCase ''vec'') vector"
    by code_simp+
  have "deleteTerm [''delete''] glossary = (UsageDelete, glossary)"
    using deleteTerm_two_phase [of "[''delete'']" glossary] t by simp
  moreover have "deleteTerm [''delete'', ''nope'', ''--confirm''] glossary =
      (TermNotFound ''nope'', glossary)"
    using deleteTerm_two_phase [of "[''delete'', ''nope'', ''--confirm'']" glossary] t d n
    by simp
  moreover have "deleteTerm [''delete'', ''vec''] glossary = (ConfirmDelete ''vec'', glossary)"
    using deleteTerm_two_phase [of "[''delete'', ''vec'']" glossary] t d n by simp
  moreover have
    "length (definitions (snd (deleteTerm [''rm'', ''vec'', ''--confirm''] glossary))) + 1 =
     length (definitions glossary)"
    using deleteTerm_two_phase [of "[''rm'', ''vec'', ''--confirm'']" glossary] t d n by auto
  ultimately show ?thesis using t by simp
qed

subsection \<open>import\<close>

text \<open>
  Claim C6. \<open>import --confirm\<close> with a staged buffer makes the staged content the
  collection, persists it, and clears the buffer, changing nothing else; with no staged
  buffer it reports that no file is loaded and leaves the state, collection and buffer
  included, as it is.
\<close>

theorem import_confirm:
  assumes "''--confirm'' \<in> set args"
  shows "(pendingImportData st = Some staged \<longrightarrow>
            importDefinitions args st =
              (Imported, st\<lparr>definitions := staged, storage := Some staged,
                             pendingImportData := None\<rparr>)) \<and>
         (pendingImportData st = None \<longrightarrow> importDefinitions args st = (NoFileLoaded, st))"
  using assms by (simp add: importDefinitions_def persistDefinitions_def)

theorem import_confirm_witness:
  "''--confirm'' \<in> set [''import'', ''--confirm''] \<and>
   pendingImportData (glossary\<lparr>pendingImportData := Some [cat]\<rparr>) = Some [cat] \<and>
   importDefinitions [''import'', ''--confirm''] (glossary\<lparr>pendingImportData := Some [cat]\<rparr>) =
     (Imported, glossary\<lparr>definitions := [cat], storage := Some [cat],
                         pendingImportData := None\<rparr>) \<and>
   pendingImportData glossary = None \<and>
   importDefinitions [''import'', ''--confirm''] glossary = (NoFileLoaded, glossary)"
proof -
  have f: "''--confirm'' \<in> set [''import'', ''--confirm'']" by simp
  have p: "pendingImportData glossary = None"
    by (simp add: glossary_def initialize_def)
  from import_confirm [OF f, of "glossary\<lparr>pendingImportData := Some [cat]\<rparr>" "[cat]"]
    import_confirm [OF f, of glossary] p f
  show ?thesis by simp
qed

lemma onload_accepts:
  "fst (onload (Entries data) st) = FileLoaded (length data) \<longleftrightarrow>
     data = [] \<or> (def_term (hd data) \<noteq> [] \<and> def_definition (hd data) \<noteq> [])"
  by (cases data) (simp_all add: onload_def)

lemma importAndConfirm_installs:
  assumes "fst (onload (Entries data) st) = FileLoaded (length data)"
  shows "definitions (importAndConfirm data st) = data"
    and "storage (importAndConfirm data st) = Some data"
proof -
  from assms have "snd (onload (Entries data) st) = st\<lparr>pendingImportData := Some data\<rparr>"
    by (cases data) (simp_all add: onload_def split: if_splits)
  then show "definitions (importAndConfirm data st) = data"
    and "storage (importAndConfirm data st) = Some data"
    by (simp_all add: importAndConfirm_def importDefinitions_def persistDefinitions_def)
qed

lemma badImport_accepted: "fst (onload (Entries badImport) st) = FileLoaded (length badImport)"
  unfolding onload_accepts by code_simp

lemma badImport_verdicts:
  "verdict badImport 1 = Rejected (TermExists ''vector'')"
  "verdict badImport 2 = Rejected (ReservedTerm ''Help'')"
  "verdict badImport 3 = Rejected TermInvalid"
  "verdict badImport 4 = Rejected RequiredFields"
  by code_simp+

text \<open>
  Claim C10. Staging accepts an array exactly when it is empty or its first element has a
  non-empty term and a non-empty definition; confirming installs and persists an accepted
  array as it is, with no check of the Validator on any entry; and there are accepted
  arrays whose installed entries the Validator rejects: a duplicate term, a reserved
  term, an ill-formed term and an empty definition body, all past the first element.
\<close>

theorem import_installs_unvalidated:
  "((fst (onload (Entries data) st) = FileLoaded (length data)) \<longleftrightarrow>
      (data = [] \<or> (def_term (hd data) \<noteq> [] \<and> def_definition (hd data) \<noteq> []))) \<and>
   (fst (onload (Entries data) st) = FileLoaded (length data) \<longrightarrow>
      definitions (importAndConfirm data st) = data \<and>
      storage (importAndConfirm data st) = Some data) \<and>
   (\<exists>bad. fst (onload (Entries bad) st) = FileLoaded (length bad) \<and>
      definitions (importAndConfirm bad st) = bad \<and>
      verdict bad 1 = Rejected (TermExists (def_term (bad ! 1))) \<and>
      verdict bad 2 = Rejected (ReservedTerm (def_term (bad ! 2))) \<and>
      verdict bad 3 = Rejected TermInvalid \<and>
      verdict bad 4 = Rejected RequiredFields)"
proof (intro conjI impI)
  show "(fst (onload (Entries data) st) = FileLoaded (length data)) \<longleftrightarrow>
      (data = [] \<or> (def_term (hd data) \<noteq> [] \<and> def_definition (hd data) \<noteq> []))"
    by (rule onload_accepts)
  show "definitions (importAndConfirm data st) = data"
    if "fst (onload (Entries data) st) = FileLoaded (length data)"
    using that by (rule importAndConfirm_installs)
  show "storage (importAndConfirm data st) = Some data"
    if "fst (onload (Entries data) st) = FileLoaded (length data)"
    using that by (rule importAndConfirm_installs)
  have "def_term (badImport ! 1) = ''vector''" "def_term (badImport ! 2) = ''Help''"
    by code_simp+
  with badImport_accepted [of st] importAndConfirm_installs(1) [OF badImport_accepted, of st]
    badImport_verdicts
  show "\<exists>bad. fst (onload (Entries bad) st) = FileLoaded (length bad) \<and>
      definitions (importAndConfirm bad st) = bad \<and>
      verdict bad 1 = Rejected (TermExists (def_term (bad ! 1))) \<and>
      verdict bad 2 = Rejected (ReservedTerm (def_term (bad ! 2))) \<and>
      verdict bad 3 = Rejected TermInvalid \<and>
      verdict bad 4 = Rejected RequiredFields"
    by (intro exI [of _ badImport]) simp
qed

theorem import_installs_unvalidated_witness:
  "fst (onload (Entries badImport) glossary) = FileLoaded (length badImport) \<and>
   definitions (importAndConfirm badImport glossary) = badImport \<and>
   storage (importAndConfirm badImport glossary) = Some badImport \<and>
   verdict (definitions (importAndConfirm badImport glossary)) 4 = Rejected RequiredFields"
  using import_installs_unvalidated [of badImport glossary] badImport_accepted [of glossary]
    badImport_verdicts(4)
  by simp

subsection \<open>saveDefinition\<close>

lemma fold_insert_aliases:
  "fold (\<lambda>alias s. insert (toLowerCase alias) s) as A = A \<union> set (map toLowerCase as)"
  by (induction as arbitrary: A) auto

lemma fold_others:
  "fold (\<lambda>(index, d) acc.
           if cur = Some index then acc
           else fold (\<lambda>alias s. insert (toLowerCase alias) s) (def_aliases d)
                  (insert (toLowerCase (def_term d)) acc))
        (zip [k..<k + length xs] xs) acc =
   acc \<union> {s. \<exists>j<length xs. cur \<noteq> Some (k + j) \<and> nameMatches s (xs ! j)}"
proof (induction xs arbitrary: k acc)
  case Nil
  show ?case by simp
next
  case (Cons x xs)
  have upt: "[k..<k + length (x # xs)] = k # [Suc k..<Suc k + length xs]"
    by (subst upt_rec) simp
  have split: "{s. \<exists>j<length (x # xs). cur \<noteq> Some (k + j) \<and> nameMatches s ((x # xs) ! j)} =
      {s. cur \<noteq> Some k \<and> nameMatches s x} \<union>
      {s. \<exists>j<length xs. cur \<noteq> Some (Suc k + j) \<and> nameMatches s (xs ! j)}"
    (is "?L = ?A \<union> ?B")
  proof (intro equalityI subsetI)
    fix s assume "s \<in> ?L"
    then obtain j where j: "j < length (x # xs)" "cur \<noteq> Some (k + j)" "nameMatches s ((x # xs) ! j)"
      by blast
    show "s \<in> ?A \<union> ?B"
    proof (cases j)
      case 0
      with j show ?thesis by simp
    next
      case (Suc j')
      with j have "j' < length xs" "cur \<noteq> Some (Suc k + j')" "nameMatches s (xs ! j')"
        by simp_all
      then show ?thesis by blast
    qed
  next
    fix s assume "s \<in> ?A \<union> ?B"
    then consider "cur \<noteq> Some k \<and> nameMatches s x"
      | j where "j < length xs" "cur \<noteq> Some (Suc k + j)" "nameMatches s (xs ! j)"
      by blast
    then show "s \<in> ?L"
    proof cases
      case 1
      then have "0 < length (x # xs) \<and> cur \<noteq> Some (k + 0) \<and> nameMatches s ((x # xs) ! 0)"
        by simp
      then show ?thesis by blast
    next
      case 2
      then have "Suc j < length (x # xs) \<and> cur \<noteq> Some (k + Suc j) \<and>
          nameMatches s ((x # xs) ! Suc j)"
        by simp
      then show ?thesis by blast
    qed
  qed
  let ?F = "\<lambda>(index, d) acc.
           if cur = Some index then acc
           else fold (\<lambda>alias s. insert (toLowerCase alias) s) (def_aliases d)
                  (insert (toLowerCase (def_term d)) acc)"
  have step: "fold ?F (zip [k..<k + length (x # xs)] (x # xs)) acc =
      fold ?F (zip [Suc k..<Suc k + length xs] xs) (?F (k, x) acc)"
    by (simp only: upt zip_Cons_Cons fold.simps o_apply)
  have rest: "fold ?F (zip [Suc k..<Suc k + length xs] xs) (?F (k, x) acc) =
      ?F (k, x) acc \<union> ?B"
    by (rule Cons.IH)
  have first: "?F (k, x) acc = acc \<union> ?A"
    by (auto simp: fold_insert_aliases nameMatches_def)
  have "fold ?F (zip [k..<k + length (x # xs)] (x # xs)) acc = ?F (k, x) acc \<union> ?B"
    using step rest by (rule trans)
  also have "\<dots> = (acc \<union> ?A) \<union> ?B"
    by (simp only: first)
  also have "\<dots> = acc \<union> ?L"
    by (simp only: split Un_assoc)
  finally show ?case .
qed

lemma allOther_iff:
  "toLowerCase name \<in> allOtherTermsAndAliases cur defs \<longleftrightarrow> collidesWithOther cur defs name"
proof -
  have "allOtherTermsAndAliases cur defs =
      {s. \<exists>j<length defs. cur \<noteq> Some j \<and> nameMatches s (defs ! j)}"
    unfolding allOtherTermsAndAliases_def
    using fold_others [of cur 0 defs "{}"] by simp
  then show ?thesis
    by (auto simp: collidesWithOther_def list_ex_iff)
qed

lemma find_filter_hd:
  "find P xs = (if list_ex P xs then Some (hd (filter P xs)) else None)"
  by (induction xs) simp_all

lemma card_lower_distinct:
  "card (set (map toLowerCase as)) \<noteq> length as \<longleftrightarrow> \<not> distinct (map toLowerCase as)"
  using card_distinct [of "map toLowerCase as"] distinct_card [of "map toLowerCase as"]
  by auto

lemma isReserved_eq: "(\<lambda>alias. toLowerCase alias \<in> set RESERVED_COMMANDS) = isReserved"
  by (rule ext) (simp add: isReserved_def)

lemma collides_eq:
  "(\<lambda>alias. toLowerCase alias \<in> allOtherTermsAndAliases cur defs) = collidesWithOther cur defs"
  by (rule ext) (rule allOther_iff)

lemma saveDefinition_outcome:
  "fst (saveDefinition c st) = specOutcome c (definitions st) (currentEditIndex st)"
  unfolding saveDefinition_def specOutcome_def firstFailure_def specChecks_def Let_def
    isReserved_eq collides_eq allOther_iff card_lower_distinct find_filter_hd
  by (simp add: isReserved_def split: option.splits)

lemma saveDefinition_state:
  "snd (saveDefinition c st) =
     (case specOutcome c (definitions st) (currentEditIndex st) of
        Rejected r \<Rightarrow> st
      | SavedNew t \<Rightarrow> persistDefinitions (st\<lparr>definitions := definitions st @ [c]\<rparr>)
      | Updated t \<Rightarrow>
          persistDefinitions
            (st\<lparr>definitions := (definitions st)[the (currentEditIndex st) := c]\<rparr>)
      | UpdatedBeyondEnd \<Rightarrow> st)"
  unfolding saveDefinition_def specOutcome_def firstFailure_def specChecks_def Let_def
    isReserved_eq collides_eq allOther_iff card_lower_distinct find_filter_hd
  by (simp add: isReserved_def addDefinition_def split: option.splits)

lemma saveDefinition_rejected:
  assumes "fst (saveDefinition c st) = Rejected r"
  shows "snd (saveDefinition c st) = st"
proof -
  from assms have "specOutcome c (definitions st) (currentEditIndex st) = Rejected r"
    by (simp only: saveDefinition_outcome)
  then show ?thesis by (simp add: saveDefinition_state)
qed

lemma specOutcome_TermExists:
  assumes "specOutcome c defs exclude = Rejected (TermExists t)"
  shows "collidesWithOther exclude defs (def_term c)"
  using assms
  unfolding specOutcome_def firstFailure_def specChecks_def
  by (simp split: if_splits option.splits)

text \<open>
  Claim C3, amended in its last clause. \<open>saveDefinition\<close> answers as the nine checks
  of the contract do when they are tried in their fixed order and the first failing one
  decides: empty term or definition, reserved term, comma in the term, reserved alias,
  duplicate alias, alias equal to the term, collision with the term or an alias of an
  entry other than the one under edit, identifier pattern, tag pattern. A rejection leaves
  the state as it is. In an edit session the rejection "term already exists" is given only
  when an entry other than the one under edit carries the submitted term as its term or
  an alias; the entry under edit never causes it.
\<close>

theorem saveDefinition_checks:
  "fst (saveDefinition c st) = specOutcome c (definitions st) (currentEditIndex st) \<and>
   (\<forall>r. fst (saveDefinition c st) = Rejected r \<longrightarrow> snd (saveDefinition c st) = st) \<and>
   (\<forall>i t. currentEditIndex st = Some i \<and> fst (saveDefinition c st) = Rejected (TermExists t) \<longrightarrow>
      (\<exists>j<length (definitions st). j \<noteq> i \<and>
         nameMatches (toLowerCase (def_term c)) (definitions st ! j)))"
proof (intro conjI allI impI)
  show "fst (saveDefinition c st) = specOutcome c (definitions st) (currentEditIndex st)"
    by (rule saveDefinition_outcome)
  show "snd (saveDefinition c st) = st" if "fst (saveDefinition c st) = Rejected r" for r
    using that by (rule saveDefinition_rejected)
  show "\<exists>j<length (definitions st). j \<noteq> i \<and>
         nameMatches (toLowerCase (def_term c)) (definitions st ! j)"
    if "currentEditIndex st = Some i \<and> fst (saveDefinition c st) = Rejected (TermExists t)"
    for i t
  proof -
    from that have e: "currentEditIndex st = Some i"
      and r: "fst (saveDefinition c st) = Rejected (TermExists t)"
      by simp_all
    from r have "specOutcome c (definitions st) (currentEditIndex st) = Rejected (TermExists t)"
      by (simp only: saveDefinition_outcome)
    then have "specOutcome c (definitions st) (Some i) = Rejected (TermExists t)"
      by (simp only: e)
    then have "collidesWithOther (Some i) (definitions st) (def_term c)"
      by (rule specOutcome_TermExists)
    then show ?thesis
      by (auto simp: collidesWithOther_def list_ex_iff)
  qed
qed

theorem saveDefinition_checks_witness:
  "fst (saveDefinition reservedEntry glossary) = Rejected (ReservedTerm ''Help'') \<and>
   snd (saveDefinition reservedEntry glossary) = glossary \<and>
   currentEditIndex (editing [vectorSpace, vector] 1) = Some 1 \<and>
   fst (saveDefinition vector (editing [vectorSpace, vector] 1)) = Updated ''vector''"
proof -
  have a: "specOutcome reservedEntry (definitions glossary) (currentEditIndex glossary) =
      Rejected (ReservedTerm ''Help'')"
    by code_simp
  have b: "specOutcome vector (definitions (editing [vectorSpace, vector] 1))
      (currentEditIndex (editing [vectorSpace, vector] 1)) = Updated ''vector''"
    by code_simp
  have c: "currentEditIndex (editing [vectorSpace, vector] 1) = Some 1"
    by (simp add: editing_def)
  from saveDefinition_checks [of reservedEntry glossary]
    saveDefinition_checks [of vector "editing [vectorSpace, vector] 1"] a b c
  show ?thesis by simp
qed

text \<open>
  The claim as stated says that resubmitting the unchanged term of the entry under edit
  never gives "already exists". A collection can hold the same term twice (an import
  installs it unchecked); then the edit session on the first of the two, resubmitting
  its term unchanged, is rejected because of the second.
\<close>

theorem saveDefinition_checks_counterexample:
  "currentEditIndex (editing [vector, vector] 0) = Some 0 \<and>
   def_term (definitions (editing [vector, vector] 0) ! 0) = def_term vector \<and>
   fst (saveDefinition vector (editing [vector, vector] 0)) = Rejected (TermExists ''vector'')"
  by code_simp

subsection \<open>list\<close>

lemma sanitizeHTML_Nil: "sanitizeHTML s = [] \<longleftrightarrow> s = []"
  by (cases s) (simp_all add: sanitizeHTML_def escapeChar_def)

lemma listTerms_tagged:
  "t \<noteq> [] \<Longrightarrow> snd (listTerms cmp (Some t) st) = st"
  by (simp add: listTerms_def Let_def sanitizeHTML_Nil toLowerCase_def)

lemma listTerms_untagged:
  "definitions (snd (listTerms cmp None st)) = sortByTerm cmp (definitions st)"
  by (simp add: listTerms_def sortByTerm_def Let_def)

lemma set_insertSorted: "set (insertSorted cmp x ys) = insert x (set ys)"
  by (induction ys) auto

lemma length_insertSorted: "length (insertSorted cmp x ys) = Suc (length ys)"
  by (induction ys) auto

lemma sortByTerm_entries:
  "set (sortByTerm cmp xs) = set xs \<and> length (sortByTerm cmp xs) = length xs"
  by (induction xs) (simp_all add: sortByTerm_def set_insertSorted length_insertSorted)

text \<open>
  Claim C1 says that \<open>list\<close> leaves the collection as it is, entries and order. With a
  tag it does (\<open>listTerms_tagged\<close>). Without one the sort runs on the array of the Data
  module itself (\<open>listTerms_untagged\<close>): the entries stay (\<open>sortByTerm_entries\<close>), their
  order does not. A collection that holds \<open>vector\<close> before \<open>Cat\<close> holds \<open>Cat\<close> before
  \<open>vector\<close> after \<open>list\<close>, and is unchanged after \<open>list algebra\<close>.
\<close>

theorem list_sorts_collection:
  "definitions (initialize None [vector, cat]) = [vector, cat] \<and>
   definitions (snd (process codeUnitCompare ''list'' (initialize None [vector, cat]))) =
     [cat, vector] \<and>
   definitions (snd (process codeUnitCompare ''list algebra'' (initialize None [vector, cat]))) =
     [vector, cat]"
  by code_simp

section \<open>History\<close>

text \<open>
  Every command but \<open>clear\<close> leaves the history and the cursor alone, so Enter leaves
  the cursor at the length of the history; and the arrow keys keep a cursor that is within
  \<open>[0, length]\<close> within it.
\<close>

lemma process_history:
  assumes "toLowerCase (case split CHR '' '' (trim command) of [] \<Rightarrow> [] | c # cs \<Rightarrow> c) \<noteq> ''clear''"
  shows "commandHistory (snd (process cmp command st)) = commandHistory st \<and>
         historyIndex (snd (process cmp command st)) = historyIndex st"
  using assms
  by (simp add: process_def Let_def listTerms_def deleteTerm_def importDefinitions_def
      persistDefinitions_def split: option.splits prod.splits)

lemma enter_resets_cursor:
  assumes "trim line \<noteq> []"
    and "toLowerCase (case split CHR '' '' (trim (trim line)) of [] \<Rightarrow> [] | c # cs \<Rightarrow> c) \<noteq> ''clear''"
  shows "historyIndex (enterLine cmp line st) =
         int (length (commandHistory (enterLine cmp line st)))"
  using assms process_history [OF assms(2)]
  by (simp add: enterLine_def handleTerminalInput_def Let_def)

lemma arrows_keep_bounds:
  assumes "0 \<le> historyIndex st" and "historyIndex st \<le> int (length (commandHistory st))"
    and "k = ArrowUp \<or> k = ArrowDown"
  shows "0 \<le> historyIndex (handleTerminalInput cmp k st) \<and>
         historyIndex (handleTerminalInput cmp k st) \<le>
           int (length (commandHistory (handleTerminalInput cmp k st)))"
  using assms by (auto simp: handleTerminalInput_def Let_def)

text \<open>
  Claim C7 says that the cursor is within \<open>[0, length]\<close> at all times and equals the
  length after every command, \<open>clear\<close> included. The cursor starts at \<open>-1\<close>; and Enter
  sets it to the length before the command runs, so after \<open>help\<close> and then \<open>clear\<close>
  the history is empty and the cursor is \<open>2\<close>. ArrowUp then moves it to \<open>1\<close> and reads
  the history outside its bounds.
\<close>

theorem clear_leaves_cursor:
  "historyIndex (initialize None []) = - 1 \<and>
   commandHistory
     (enterLine codeUnitCompare ''clear'' (enterLine codeUnitCompare ''help'' (initialize None []))) = [] \<and>
   historyIndex
     (enterLine codeUnitCompare ''clear'' (enterLine codeUnitCompare ''help'' (initialize None []))) = 2 \<and>
   commandInput
     (handleTerminalInput codeUnitCompare ArrowUp
       (enterLine codeUnitCompare ''clear''
         (enterLine codeUnitCompare ''help'' (initialize None [])))) = ''undefined''"
  by code_simp

end
